theory Spec2Isabelle
  imports Complex_Main "HOL-Library.Multiset"
begin

section \<open>Strings and character classes\<close>

text \<open>
  A JavaScript string is a sequence of UTF-16 code units. The model uses HOL strings: a
  \<^typ>\<open>char\<close> stands for the code unit of the same value, so the model covers
  the strings whose code units lie in 0..255 (ASCII and Latin-1 text). On these the
  character classes and case conversion below are the ones of ECMAScript.
\<close>

definition code :: "char \<Rightarrow> nat" where
  "code c = of_char c"

text \<open>The class \<open>\s\<close> (and the characters removed by \<open>trim\<close>): TAB, LF, VT, FF, CR, SPACE, NBSP.\<close>

definition isWhiteSpace :: "char \<Rightarrow> bool" where
  "isWhiteSpace c = (code c = 9 \<or> code c = 10 \<or> code c = 11 \<or> code c = 12 \<or> code c = 13
     \<or> code c = 32 \<or> code c = 160)"

text \<open>The class \<open>\w\<close>, which is \<open>[A-Za-z0-9_]\<close>.\<close>

definition isWordChar :: "char \<Rightarrow> bool" where
  "isWordChar c = ((48 \<le> code c \<and> code c \<le> 57) \<or> (65 \<le> code c \<and> code c \<le> 90)
     \<or> code c = 95 \<or> (97 \<le> code c \<and> code c \<le> 122))"

text \<open>
  \<open>String.prototype.toLowerCase\<close> on code units below 256: \<open>A-Z\<close> and the Latin-1
  capitals U+00C0..U+00DE (without the multiplication sign U+00D7) move up by 32.
\<close>

definition toLowerChar :: "char \<Rightarrow> char" where
  "toLowerChar c =
     (if (65 \<le> code c \<and> code c \<le> 90) \<or> (192 \<le> code c \<and> code c \<le> 222 \<and> code c \<noteq> 215)
      then char_of (code c + 32) else c)"

definition toLowerCase :: "string \<Rightarrow> string" where
  "toLowerCase s = map toLowerChar s"

text \<open>\<open>s.replace(/[^\w\s]/g, '')\<close>: every character outside both classes is deleted.\<close>

definition removePunctuation :: "string \<Rightarrow> string" where
  "removePunctuation s = filter (\<lambda>c. isWordChar c \<or> isWhiteSpace c) s"

text \<open>\<open>s.replace(/\s+/g, ' ')\<close>: every maximal run of white space becomes one SPACE.\<close>

function collapseWhitespace :: "string \<Rightarrow> string" where
  "collapseWhitespace [] = []"
| "collapseWhitespace (c # cs) =
     (if isWhiteSpace c then CHR '' '' # collapseWhitespace (dropWhile isWhiteSpace cs)
      else c # collapseWhitespace cs)"
  by pat_completeness auto
termination
  by (relation "measure length") (auto simp: le_imp_less_Suc length_dropWhile_le)

definition trim :: "string \<Rightarrow> string" where
  "trim s = rev (dropWhile isWhiteSpace (rev (dropWhile isWhiteSpace s)))"

definition normalizeString :: "string \<Rightarrow> string" where
  "normalizeString str = trim (collapseWhitespace (removePunctuation (toLowerCase str)))"

section \<open>Levenshtein distance and similarity\<close>

text \<open>
  \<open>levenshteinDistance(str1, str2)\<close> fills a matrix with one row per prefix of \<open>str2\<close> and
  one column per prefix of \<open>str1\<close>. Row 0 is \<open>[0, 1, .., str1.length]\<close>; row \<open>i\<close> starts
  with \<open>i\<close> and is filled from left to right out of row \<open>i - 1\<close>.

  \<open>fillRow c str1 prev left\<close> is the inner loop for the character \<open>c = str2.charAt(i - 1)\<close>:
  \<open>prev\<close> is the part of row \<open>i - 1\<close> from column \<open>j - 1\<close> on, \<open>left\<close> is
  \<open>matrix[i][j - 1]\<close>, and the result is the part of row \<open>i\<close> from column \<open>j\<close> on.
\<close>

fun fillRow :: "char \<Rightarrow> string \<Rightarrow> nat list \<Rightarrow> nat \<Rightarrow> nat list" where
  "fillRow c (x # xs) (diag # up # prev) left =
     (let v = (if c = x then diag else min (diag + 1) (min (left + 1) (up + 1)))
      in v # fillRow c xs (up # prev) v)"
| "fillRow c _ _ left = []"

text \<open>The outer loop: \<open>i\<close> is the row index, \<open>prev\<close> is row \<open>i - 1\<close>; the result is the last row.\<close>

fun fillRows :: "string \<Rightarrow> string \<Rightarrow> nat list \<Rightarrow> nat \<Rightarrow> nat list" where
  "fillRows str1 [] prev i = prev"
| "fillRows str1 (c # cs) prev i = fillRows str1 cs (i # fillRow c str1 prev i) (Suc i)"

definition levenshteinDistance :: "string \<Rightarrow> string \<Rightarrow> nat" where
  "levenshteinDistance str1 str2 =
     fillRows str1 str2 [0 ..< Suc (length str1)] 1 ! length str1"

text \<open>
  \<open>calculateSimilarity\<close> divides two integers in floating point and the caller compares
  the quotient with \<open>0.85\<close>. The quotient is modelled as the exact real number. The test
  \<open>> 0.85\<close> has the same outcome on both: the exact quotient \<open>(L - d) / L\<close> is either
  \<open>0.85\<close>, and then it rounds to the same double as the constant, or it is at least
  \<open>1 / (20 * L)\<close> away from \<open>0.85\<close>, which for a string length \<open>L\<close> is far more than the
  rounding error \<open>2^-53\<close> of both numbers.
\<close>

definition calculateSimilarity :: "string \<Rightarrow> string \<Rightarrow> real" where
  "calculateSimilarity str1 str2 =
     (let longer = (if length str1 > length str2 then str1 else str2);
          shorter = (if length str1 > length str2 then str2 else str1)
      in if length longer = 0 then 1
         else (let editDistance = levenshteinDistance longer shorter
               in (real (length longer) - real editDistance) / real (length longer)))"

section \<open>Deduplication\<close>

text \<open>
  A record as \<open>parseArticles\<close> builds it and as the interface \<open>Article\<close> of the front end
  declares it: \<open>doi\<close> and \<open>year\<close> may be \<open>null\<close>, the other fields are always set.
\<close>

record article =
  pmid :: string
  title :: string
  authors :: "string list"
  journal :: string
  pubDate :: string
  abstract :: string
  doi :: "string option"
  year :: "string option"

text \<open>
  A JavaScript \<open>Map\<close> with string keys, in insertion order. \<open>set\<close> on a key that is
  present replaces the value and keeps the entry's position; otherwise it appends.
\<close>

type_synonym 'v jsmap = "(string \<times> 'v) list"

definition map_has :: "'v jsmap \<Rightarrow> string \<Rightarrow> bool" where
  "map_has m k = (k \<in> set (map fst m))"

fun map_set :: "'v jsmap \<Rightarrow> string \<Rightarrow> 'v \<Rightarrow> 'v jsmap" where
  "map_set [] k v = [(k, v)]"
| "map_set ((k', v') # m) k v =
     (if k' = k then (k, v) # m else (k', v') # map_set m k v)"

definition map_values :: "'v jsmap \<Rightarrow> 'v list" where
  "map_values m = map snd m"

text \<open>\<open>article.doi && article.doi.trim() !== ''\<close>: the DOI when this test succeeds.\<close>

definition usableDoi :: "article \<Rightarrow> string option" where
  "usableDoi a =
     (case doi a of
        None \<Rightarrow> None
      | Some d \<Rightarrow> if d \<noteq> [] \<and> trim d \<noteq> [] then Some d else None)"

text \<open>\<open>key.split('|')\<close>, for any separator character.\<close>

fun split :: "char \<Rightarrow> string \<Rightarrow> string list" where
  "split sep [] = [[]]"
| "split sep (c # cs) =
     (if c = sep then [] # split sep cs
      else (case split sep cs of p # ps \<Rightarrow> (c # p) # ps | [] \<Rightarrow> [[c]]))"

definition firstAuthorOf :: "article \<Rightarrow> string" where
  "firstAuthorOf a = (case authors a of [] \<Rightarrow> [] | x # _ \<Rightarrow> normalizeString x)"

definition yearOf :: "article \<Rightarrow> string" where
  "yearOf a = (case year a of None \<Rightarrow> [] | Some y \<Rightarrow> y)"

definition compositeKeyOf :: "article \<Rightarrow> string" where
  "compositeKeyOf a = normalizeString (title a) @ ''|'' @ firstAuthorOf a @ ''|'' @ yearOf a"

text \<open>
  The scan over \<open>uniqueMap.entries()\<close>. A key without \<open>|\<close> is passed over. The
  destructuring takes the first three parts of the key; with fewer than three parts
  \<open>existingYear\<close> is \<open>undefined\<close> and differs from every string.
\<close>

fun isDuplicate :: "string \<Rightarrow> string \<Rightarrow> string \<Rightarrow> article jsmap \<Rightarrow> bool" where
  "isDuplicate normalizedTitle firstAuthor yr [] = False"
| "isDuplicate normalizedTitle firstAuthor yr ((key, existingArticle) # rest) =
     (if CHR ''|'' \<in> set key then
        (case split (CHR ''|'') key of
           existingTitle # existingAuthor # existingYear # _ \<Rightarrow>
             if existingAuthor = firstAuthor \<and> existingYear = yr
                \<and> calculateSimilarity normalizedTitle existingTitle > 0.85
             then True
             else isDuplicate normalizedTitle firstAuthor yr rest
         | _ \<Rightarrow> isDuplicate normalizedTitle firstAuthor yr rest)
      else isDuplicate normalizedTitle firstAuthor yr rest)"

text \<open>One iteration of the loop of \<open>deduplicateArticles\<close> on the pair \<open>(uniqueMap, doiMap)\<close>.\<close>

definition dedupStep :: "article jsmap \<times> bool jsmap \<Rightarrow> article \<Rightarrow> article jsmap \<times> bool jsmap" where
  "dedupStep st a =
     (case st of (uniqueMap, doiMap) \<Rightarrow>
        (case usableDoi a of
           Some d \<Rightarrow>
             (let normalizedDoi = normalizeString d
              in if map_has doiMap normalizedDoi then (uniqueMap, doiMap)
                 else (map_set uniqueMap (pmid a) a, map_set doiMap normalizedDoi True))
         | None \<Rightarrow>
             (let compositeKey = compositeKeyOf a
              in if map_has uniqueMap compositeKey then (uniqueMap, doiMap)
                 else if isDuplicate (normalizeString (title a)) (firstAuthorOf a) (yearOf a) uniqueMap
                 then (uniqueMap, doiMap)
                 else (map_set uniqueMap compositeKey a, doiMap))))"

definition deduplicateArticles :: "article list \<Rightarrow> article list" where
  "deduplicateArticles articles = map_values (fst (foldl dedupStep ([], []) articles))"

section \<open>Regular expressions of the extractor\<close>

text \<open>
  The extractor uses regular expressions of one shape: a sequence of literals and of
  starred character classes, greedy (\<open>[^>]*\<close>) or lazy (\<open>[\s\S]*?\<close>, \<open>.*?\<close>), some of
  the lazy ones inside a capture group; all carry the flag \<open>i\<close>. \<open>Dot\<close> is the class of
  \<open>.\<close>, every character but the line terminators LF and CR.
\<close>

datatype cls = AnyChar | NotGt | Dot

fun inClass :: "cls \<Rightarrow> char \<Rightarrow> bool" where
  "inClass AnyChar c = True"
| "inClass NotGt c = (c \<noteq> CHR ''>'')"
| "inClass Dot c = (code c \<noteq> 10 \<and> code c \<noteq> 13)"

datatype ritem = Lit string | Greedy cls | Lazy cls | LazyCap cls

text \<open>A literal under the flag \<open>i\<close>: the characters agree up to case.\<close>

fun litMatches :: "string \<Rightarrow> string \<Rightarrow> bool" where
  "litMatches [] s = True"
| "litMatches (c # cs) [] = False"
| "litMatches (c # cs) (x # xs) = (if toLowerChar c = toLowerChar x then litMatches cs xs else False)"

text \<open>
  \<open>rmatch ps s\<close> matches the pattern \<open>ps\<close> at the start of \<open>s\<close> as a backtracking matcher
  does: a greedy star first tries to take one more character, a lazy star first tries to
  stop. The result is the list of captures and the text after the match.
\<close>

fun rmatch :: "ritem list \<Rightarrow> string \<Rightarrow> (string list \<times> string) option" where
  "rmatch [] s = Some ([], s)"
| "rmatch (Lit l # ps) s = (if litMatches l s then rmatch ps (drop (length l) s) else None)"
| "rmatch (Greedy c # ps) [] = rmatch ps []"
| "rmatch (Greedy c # ps) (x # xs) =
     (if inClass c x
      then (case rmatch (Greedy c # ps) xs of Some r \<Rightarrow> Some r | None \<Rightarrow> rmatch ps (x # xs))
      else rmatch ps (x # xs))"
| "rmatch (Lazy c # ps) [] = rmatch ps []"
| "rmatch (Lazy c # ps) (x # xs) =
     (case rmatch ps (x # xs) of
        Some r \<Rightarrow> Some r
      | None \<Rightarrow> if inClass c x then rmatch (Lazy c # ps) xs else None)"
| "rmatch (LazyCap c # ps) [] =
     (case rmatch ps [] of Some (caps, rest) \<Rightarrow> Some ([] # caps, rest) | None \<Rightarrow> None)"
| "rmatch (LazyCap c # ps) (x # xs) =
     (case rmatch ps (x # xs) of
        Some (caps, rest) \<Rightarrow> Some ([] # caps, rest)
      | None \<Rightarrow>
          if inClass c x
          then (case rmatch (LazyCap c # ps) xs of
                  Some (cap # caps, rest) \<Rightarrow> Some ((x # cap) # caps, rest)
                | _ \<Rightarrow> None)
          else None)"

text \<open>\<open>s.match(re)\<close> without the flag \<open>g\<close>: the leftmost match, as its captures.\<close>

fun firstMatch :: "ritem list \<Rightarrow> string \<Rightarrow> string list option" where
  "firstMatch ps [] = map_option fst (rmatch ps [])"
| "firstMatch ps (x # xs) =
     (case rmatch ps (x # xs) of Some (caps, rest) \<Rightarrow> Some caps | None \<Rightarrow> firstMatch ps xs)"

text \<open>
  \<open>s.match(re)\<close> and \<open>s.matchAll(re)\<close> with the flag \<open>g\<close>: all matches from left to right,
  each as its text and captures. The search resumes where the last match ended (one
  character later after an empty match); \<open>n\<close> counts the characters still covered by the
  last match.
\<close>

fun matchAll :: "ritem list \<Rightarrow> nat \<Rightarrow> string \<Rightarrow> (string \<times> string list) list" where
  "matchAll ps n [] =
     (if n = 0 then (case rmatch ps [] of Some (caps, rest) \<Rightarrow> [([], caps)] | None \<Rightarrow> []) else [])"
| "matchAll ps n (x # xs) =
     (if n > 0 then matchAll ps (n - 1) xs
      else (case rmatch ps (x # xs) of
              None \<Rightarrow> matchAll ps 0 xs
            | Some (caps, rest) \<Rightarrow>
                (let len = length (x # xs) - length rest
                 in (take len (x # xs), caps) # matchAll ps (len - 1) xs)))"

text \<open>\<open>s.replace(re, '')\<close> with the flag \<open>g\<close>: the text outside the matches.\<close>

fun removeAll :: "ritem list \<Rightarrow> nat \<Rightarrow> string \<Rightarrow> string" where
  "removeAll ps n [] = []"
| "removeAll ps n (x # xs) =
     (if n > 0 then removeAll ps (n - 1) xs
      else (case rmatch ps (x # xs) of
              None \<Rightarrow> x # removeAll ps 0 xs
            | Some (caps, rest) \<Rightarrow>
                (let len = length (x # xs) - length rest
                 in if len = 0 then x # removeAll ps 0 xs else removeAll ps (len - 1) xs)))"

section \<open>Extraction\<close>

definition articlePattern :: "ritem list" where
  "articlePattern = [Lit ''<PubmedArticle>'', Lazy AnyChar, Lit ''</PubmedArticle>'']"

definition pmidPattern :: "ritem list" where
  "pmidPattern = [Lit ''<PMID'', Greedy NotGt, Lit ''>'', LazyCap Dot, Lit ''</PMID>'']"

definition titlePattern :: "ritem list" where
  "titlePattern = [Lit ''<ArticleTitle>'', LazyCap AnyChar, Lit ''</ArticleTitle>'']"

definition abstractPattern :: "ritem list" where
  "abstractPattern =
     [Lit ''<AbstractText'', Greedy NotGt, Lit ''>'', LazyCap AnyChar, Lit ''</AbstractText>'']"

definition authorPattern :: "ritem list" where
  "authorPattern =
     [Lit ''<Author'', Greedy NotGt, Lit ''>'', Lazy AnyChar,
      Lit ''<LastName>'', LazyCap Dot, Lit ''</LastName>'', Lazy AnyChar,
      Lit ''<ForeName>'', LazyCap Dot, Lit ''</ForeName>'', Lazy AnyChar, Lit ''</Author>'']"

definition journalPattern :: "ritem list" where
  "journalPattern = [Lit ''<Title>'', LazyCap Dot, Lit ''</Title>'']"

definition yearPattern :: "ritem list" where
  "yearPattern = [Lit ''<PubDate>'', Lazy AnyChar, Lit ''<Year>'', LazyCap Dot, Lit ''</Year>'']"

definition monthPattern :: "ritem list" where
  "monthPattern = [Lit ''<PubDate>'', Lazy AnyChar, Lit ''<Month>'', LazyCap Dot, Lit ''</Month>'']"

definition doiPattern :: "ritem list" where
  "doiPattern =
     [Lit (''<ArticleId IdType='' @ [CHR 0x22] @ ''doi'' @ [CHR 0x22] @ ''>''), LazyCap Dot,
      Lit ''</ArticleId>'']"

definition tagPattern :: "ritem list" where
  "tagPattern = [Lit ''<'', Greedy NotGt, Lit ''>'']"

text \<open>\<open>m ? m[i] : null\<close> for a match result \<open>m\<close>.\<close>

definition capture :: "nat \<Rightarrow> string list option \<Rightarrow> string option" where
  "capture i m = (case m of None \<Rightarrow> None | Some caps \<Rightarrow> if i < length caps then Some (caps ! i) else None)"

definition articleBlocks :: "string \<Rightarrow> string list" where
  "articleBlocks xmlText = map fst (matchAll articlePattern 0 xmlText)"

definition pmidOf :: "string \<Rightarrow> string option" where
  "pmidOf articleXml = capture 0 (firstMatch pmidPattern articleXml)"

text \<open>\<open>`${match[2]} ${match[1]}`\<close> for a match of the author pattern, which has two captures.\<close>

definition authorName :: "string \<times> string list \<Rightarrow> string" where
  "authorName m =
     (case snd m of
        lastName # foreName # _ \<Rightarrow> foreName @ '' '' @ lastName
      | _ \<Rightarrow> ''undefined undefined'')"

text \<open>
  The body of the loop for one block: \<open>None\<close> is the \<open>continue\<close> of a block whose PMID is
  missing or empty. Every operation of the body is defined on every string, so the body
  itself raises nothing.
\<close>

definition parseBlock :: "string \<Rightarrow> article option" where
  "parseBlock articleXml =
     (case pmidOf articleXml of
        None \<Rightarrow> None
      | Some p \<Rightarrow>
          if p = [] then None
          else
            (let titleV = (case capture 0 (firstMatch titlePattern articleXml) of
                             Some t \<Rightarrow> removeAll tagPattern 0 t | None \<Rightarrow> ''No title available'');
                 abstractV = (case capture 0 (firstMatch abstractPattern articleXml) of
                             Some t \<Rightarrow> removeAll tagPattern 0 t | None \<Rightarrow> ''No abstract available'');
                 authorsV = map authorName (matchAll authorPattern 0 articleXml);
                 journalV = (case capture 0 (firstMatch journalPattern articleXml) of
                             Some t \<Rightarrow> t | None \<Rightarrow> ''Unknown journal'');
                 yearMatch = capture 0 (firstMatch yearPattern articleXml);
                 monthMatch = capture 0 (firstMatch monthPattern articleXml);
                 pubDateV = (case yearMatch of
                               Some y \<Rightarrow> (case monthMatch of Some m \<Rightarrow> m @ '' '' | None \<Rightarrow> []) @ y
                             | None \<Rightarrow> ''Unknown date'');
                 doiV = capture 0 (firstMatch doiPattern articleXml)
             in Some \<lparr>pmid = p, title = titleV,
                      authors = (if authorsV \<noteq> [] then authorsV else [''Unknown authors'']),
                      journal = journalV, pubDate = pubDateV, abstract = take 500 abstractV,
                      doi = doiV, year = yearMatch\<rparr>))"

text \<open>
  \<open>parseArticles\<close> occurs twice in the repository, in the search function and in the
  related-articles function, with the same body (the first also logs a warning before its
  \<open>continue\<close>). The loop over the blocks with its \<open>try\<close>/\<open>catch\<close>, for any body: a body that raises
  (\<open>Inl\<close>) is logged and the loop goes on; a body that ends in \<open>continue\<close> adds nothing.
\<close>

datatype exn = Exn string

fun parseLoop :: "(string \<Rightarrow> exn + article option) \<Rightarrow> article list \<Rightarrow> string list \<Rightarrow> article list" where
  "parseLoop body articles [] = articles"
| "parseLoop body articles (articleXml # rest) =
     (case body articleXml of
        Inl e \<Rightarrow> parseLoop body articles rest
      | Inr None \<Rightarrow> parseLoop body articles rest
      | Inr (Some a) \<Rightarrow> parseLoop body (articles @ [a]) rest)"

definition parseArticles :: "string \<Rightarrow> article list" where
  "parseArticles xmlText = parseLoop (\<lambda>b. Inr (parseBlock b)) [] (articleBlocks xmlText)"

section \<open>Notions used in the statements and proofs\<close>

text \<open>
  The recursion for the edit distance with unit costs that the matrix of
  \<open>levenshteinDistance\<close> is compared with: for two words with the same first character it
  is the distance of the rests, otherwise one more than the least distance after a
  substitution, an insertion or a deletion. The matrix works on prefixes, so the words
  of the recursion are the strings read from their last character. \<open>levRow r p xs\<close> lists
  the distances between \<open>r\<close> and the words \<open>p\<close>, \<open>x\<^sub>1 # p\<close>, \<open>x\<^sub>2 # x\<^sub>1 # p\<close>, ...,
  which is one row of the matrix.
\<close>

fun lev :: "string \<Rightarrow> string \<Rightarrow> nat" where
  "lev [] ys = length ys"
| "lev (x # xs) [] = Suc (length xs)"
| "lev (x # xs) (y # ys) =
     (if x = y then lev xs ys
      else min (lev xs ys + 1) (min (lev (x # xs) ys + 1) (lev xs (y # ys) + 1)))"

fun levRow :: "string \<Rightarrow> string \<Rightarrow> string \<Rightarrow> nat list" where
  "levRow r p [] = [lev r p]"
| "levRow r p (x # xs) = lev r p # levRow r (x # p) xs"

text \<open>
  The normalized DOI of a record that passes the Tier-1 test, and the key under which
  \<open>deduplicateArticles\<close> stores a record that it accepts.
\<close>

definition ndoiOf :: "article \<Rightarrow> string option" where
  "ndoiOf a = map_option normalizeString (usableDoi a)"

definition keyOf :: "article \<Rightarrow> string" where
  "keyOf a = (case usableDoi a of Some d \<Rightarrow> pmid a | None \<Rightarrow> compositeKeyOf a)"

text \<open>
  Notions for the invariant of the loop: the normalized DOIs of the records held in the
  accepted map, the condition under which each DOI-less entry was accepted (no fuzzy
  match among the entries before it), and the invariant itself.
\<close>

definition doisOf :: "article jsmap \<Rightarrow> string list" where
  "doisOf um = concat (map (\<lambda>e. case ndoiOf (snd e) of None \<Rightarrow> [] | Some d \<Rightarrow> [d]) um)"

fun acceptedOK :: "article jsmap \<Rightarrow> article jsmap \<Rightarrow> bool" where
  "acceptedOK pre [] = True"
| "acceptedOK pre (e # rest) =
     ((usableDoi (snd e) = None \<longrightarrow>
         \<not> isDuplicate (normalizeString (title (snd e))) (firstAuthorOf (snd e)) (yearOf (snd e)) pre)
      \<and> acceptedOK (pre @ [e]) rest)"

definition stateInv :: "article jsmap \<times> bool jsmap \<Rightarrow> bool" where
  "stateInv st =
     (distinct (map fst (fst st)) \<and> (\<forall>e \<in> set (fst st). fst e = keyOf (snd e))
      \<and> distinct (doisOf (fst st)) \<and> set (doisOf (fst st)) \<subseteq> set (map fst (snd st))
      \<and> acceptedOK [] (fst st))"

text \<open>The DOI map that a run over the values of an accepted map builds.\<close>

definition dmOf :: "article jsmap \<Rightarrow> bool jsmap" where
  "dmOf um = map (\<lambda>d. (d, True)) (doisOf um)"

text \<open>The characters that \<open>normalizeString\<close> can leave in its result.\<close>

definition isLowerLetter :: "char \<Rightarrow> bool" where
  "isLowerLetter c = (97 \<le> code c \<and> code c \<le> 122)"

definition isDigit :: "char \<Rightarrow> bool" where
  "isDigit c = (48 \<le> code c \<and> code c \<le> 57)"

definition normalChar :: "char \<Rightarrow> bool" where
  "normalChar c = (isLowerLetter c \<or> isDigit c \<or> c = CHR ''_'' \<or> c = CHR '' '')"

text \<open>
  \<open>hasDoi d a\<close>: the record \<open>a\<close> passes the Tier-1 test and its DOI normalizes to \<open>d\<close>.
  \<open>pmidDeterminesDoi xs\<close>: records of \<open>xs\<close> that bear a DOI and share a PMID have the same
  normalized DOI (the accepted map stores a DOI-bearing record under its PMID).
\<close>

definition pmidDeterminesDoi :: "article list \<Rightarrow> bool" where
  "pmidDeterminesDoi xs =
     (\<forall>a \<in> set xs. \<forall>b \<in> set xs.
        ndoiOf a \<noteq> None \<and> ndoiOf b \<noteq> None \<and> pmid a = pmid b \<longrightarrow> ndoiOf a = ndoiOf b)"

definition hasDoi :: "string \<Rightarrow> article \<Rightarrow> bool" where
  "hasDoi d a = (ndoiOf a = Some d)"

text \<open>Example records.\<close>

definition ex_doiA :: article where
  "ex_doiA = \<lparr>pmid = ''7'', title = ''Study A'', authors = [''Ann Lee''], journal = ''J'',
     pubDate = ''2020'', abstract = ''x'', doi = Some ''10.1/a'', year = Some ''2020''\<rparr>"

definition ex_doiA' :: article where
  "ex_doiA' = \<lparr>pmid = ''8'', title = ''Study A (dup)'', authors = [''Ann Lee''], journal = ''J'',
     pubDate = ''2020'', abstract = ''x'', doi = Some ''10.1/A'', year = Some ''2020''\<rparr>"

definition ex_doiC :: article where
  "ex_doiC = \<lparr>pmid = ''9'', title = ''Study A'', authors = [''Ann Lee''], journal = ''J'',
     pubDate = ''2020'', abstract = ''x'', doi = Some ''10.2/b'', year = Some ''2020''\<rparr>"

definition ex_doiB :: article where
  "ex_doiB = \<lparr>pmid = ''7'', title = ''Study B'', authors = [''Bob Ray''], journal = ''K'',
     pubDate = ''2021'', abstract = ''y'', doi = Some ''10.2/b'', year = Some ''2021''\<rparr>"

definition ex_blank1 :: article where
  "ex_blank1 = \<lparr>pmid = ''10'', title = ''Study W'', authors = [''Wu Li''], journal = ''J'',
     pubDate = ''2022'', abstract = ''x'', doi = Some '' '', year = Some ''2022''\<rparr>"

definition ex_blank2 :: article where
  "ex_blank2 = \<lparr>pmid = ''11'', title = ''Another Study'', authors = [''Wu Li''], journal = ''J'',
     pubDate = ''2022'', abstract = ''x'', doi = Some ''  '', year = Some ''2022''\<rparr>"

definition ex_nodoi :: article where
  "ex_nodoi = \<lparr>pmid = ''12'', title = ''Study W'', authors = [''Wu Li''], journal = ''J'',
     pubDate = ''2022'', abstract = ''x'', doi = None, year = Some ''2022''\<rparr>"

text \<open>
  Notions for the statements about extraction. \<open>validId b\<close>: the extractor finds a
  non-empty identifier in the block \<open>b\<close>.
\<close>

definition validId :: "string \<Rightarrow> bool" where
  "validId b = (case pmidOf b of Some p \<Rightarrow> p \<noteq> [] | None \<Rightarrow> False)"

text \<open>
  The blocks and the identifier of a block, described without the matcher.
  \<open>ciEq u l\<close>: the texts \<open>u\<close> and \<open>l\<close> agree up to case. \<open>startsCI l s\<close>: the text \<open>s\<close>
  begins with \<open>l\<close>, up to case.
\<close>

definition ciEq :: "string \<Rightarrow> string \<Rightarrow> bool" where
  "ciEq u l = (map toLowerChar u = map toLowerChar l)"

definition startsCI :: "string \<Rightarrow> string \<Rightarrow> bool" where
  "startsCI l s = (\<exists>u v. s = u @ v \<and> ciEq u l)"

text \<open>
  \<open>isBlock b\<close>: the text \<open>b\<close> is an opening tag \<open><PubmedArticle>\<close>, any text, and a
  closing tag \<open></PubmedArticle>\<close>, and no closing tag begins earlier in what follows the
  opening tag. \<open>blockStart t\<close>: the text \<open>t\<close> begins with a block. \<open>blocksOf s bs\<close>:
  the list \<open>bs\<close> holds the blocks of \<open>s\<close> from left to right: the first one is the
  block that begins leftmost in \<open>s\<close>, after a gap \<open>g\<close> in which no block begins; the
  others are the blocks of the text \<open>rest\<close> that follows it; after the last one no
  block begins any more.
\<close>

definition isBlock :: "string \<Rightarrow> bool" where
  "isBlock b =
     (\<exists>ot body ct. b = ot @ body @ ct \<and> ciEq ot ''<PubmedArticle>'' \<and> ciEq ct ''</PubmedArticle>'' \<and>
        (\<forall>u v. body @ ct = u @ v \<and> length u < length body \<longrightarrow> \<not> startsCI ''</PubmedArticle>'' v))"

definition blockStart :: "string \<Rightarrow> bool" where
  "blockStart t = (\<exists>b rest. t = b @ rest \<and> isBlock b)"

fun blocksOf :: "string \<Rightarrow> string list \<Rightarrow> bool" where
  "blocksOf s [] = (\<forall>u v. s = u @ v \<longrightarrow> \<not> blockStart v)"
| "blocksOf s (b # bs) =
     (\<exists>g rest. s = g @ b @ rest \<and> (\<forall>u v. g = u @ v \<and> v \<noteq> [] \<longrightarrow> \<not> blockStart (v @ b @ rest)) \<and>
        isBlock b \<and> blocksOf rest bs)"

text \<open>
  \<open>pmidAt t p\<close>: the text \<open>t\<close> begins with an identifier element with content \<open>p\<close>:
  \<open><PMID\<close>, characters other than \<open>>\<close>, a \<open>>\<close>, the content \<open>p\<close>, in which there is no
  line terminator (LF, CR), and \<open></PMID>\<close>, which does not begin earlier in the content.
  \<open>firstPmid b p\<close>: the identifier element that begins leftmost in \<open>b\<close> has the content
  \<open>p\<close>.
\<close>

definition pmidAt :: "string \<Rightarrow> string \<Rightarrow> bool" where
  "pmidAt t p =
     (\<exists>ot attrs ct rest. t = ot @ attrs @ CHR ''>'' # p @ ct @ rest \<and> ciEq ot ''<PMID'' \<and>
        CHR ''>'' \<notin> set attrs \<and> (\<forall>x \<in> set p. code x \<noteq> 10 \<and> code x \<noteq> 13) \<and> ciEq ct ''</PMID>'' \<and>
        (\<forall>u v. p @ ct = u @ v \<and> length u < length p \<longrightarrow> \<not> startsCI ''</PMID>'' v))"

definition firstPmid :: "string \<Rightarrow> string \<Rightarrow> bool" where
  "firstPmid b p =
     (\<exists>g t. b = g @ t \<and> pmidAt t p \<and> (\<forall>u v. g = u @ v \<and> v \<noteq> [] \<longrightarrow> \<not> (\<exists>q. pmidAt (v @ t) q)))"

text \<open>The records that one run of a loop body contributes.\<close>

definition kept :: "(string \<Rightarrow> exn + article option) \<Rightarrow> string \<Rightarrow> article list" where
  "kept body b = (case body b of Inr (Some a) \<Rightarrow> [a] | _ \<Rightarrow> [])"


definition ex_xml :: string where
  "ex_xml = ''<PubmedArticle><PMID>1</PMID></PubmedArticle> <PubmedArticle>no id</PubmedArticle> <PubmedArticle><PMID>3</PMID></PubmedArticle>''"

text \<open>
  A block whose first identifier element is empty and whose second is not, and a block
  whose identifier element has a line feed in its content.
\<close>

definition ex_two_ids :: string where
  "ex_two_ids = ''<PubmedArticle><PMID></PMID><PMID>9</PMID></PubmedArticle>''"

definition ex_multiline :: string where
  "ex_multiline = ''<PubmedArticle><PMID>'' @ [CHR 0x0A] @ ''5</PMID></PubmedArticle>''"

text \<open>
  Notions for Tier 2. \<open>inGroup fa y r\<close>: the record \<open>r\<close> has no usable DOI, normalized first
  author \<open>fa\<close> and year \<open>y\<close>. \<open>barFree r\<close>: the key under which \<open>r\<close> is stored splits at
  \<open>|\<close> as intended (no \<open>|\<close> in the PMID of a DOI-bearing record, none in the year of a
  DOI-less one). \<open>greedy\<close> is the selection that the specification describes for one
  group: a record is kept unless it resembles a record kept before it.
\<close>

definition titleOf :: "article \<Rightarrow> string" where
  "titleOf a = normalizeString (title a)"

definition inGroup :: "string \<Rightarrow> string \<Rightarrow> article \<Rightarrow> bool" where
  "inGroup fa y r = (usableDoi r = None \<and> firstAuthorOf r = fa \<and> yearOf r = y)"

definition barFree :: "article \<Rightarrow> bool" where
  "barFree r = (case usableDoi r of Some d \<Rightarrow> CHR ''|'' \<notin> set (pmid r)
                | None \<Rightarrow> CHR ''|'' \<notin> set (yearOf r))"

definition similar :: "article \<Rightarrow> article \<Rightarrow> bool" where
  "similar c g = (calculateSimilarity (titleOf c) (titleOf g) > 0.85)"

fun greedy :: "article list \<Rightarrow> article list \<Rightarrow> article list" where
  "greedy acc [] = acc"
| "greedy acc (c # cs) = (if list_ex (similar c) acc then greedy acc cs else greedy (acc @ [c]) cs)"

definition wellKeyed :: "article jsmap \<Rightarrow> bool" where
  "wellKeyed um = (\<forall>e \<in> set um. fst e = keyOf (snd e) \<and> barFree (snd e))"

text \<open>Example records without a DOI.\<close>

definition ex_z :: article where
  "ex_z = \<lparr>pmid = ''1'', title = ''aaaaaaaaaa'', authors = [''Jo Smith''], journal = ''J'',
     pubDate = ''2020'', abstract = ''x'', doi = None, year = Some ''2020''\<rparr>"

definition ex_a :: article where
  "ex_a = \<lparr>pmid = ''2'', title = ''aaaaaaaaab'', authors = [''Jo Smith''], journal = ''J'',
     pubDate = ''2020'', abstract = ''x'', doi = None, year = Some ''2020''\<rparr>"

definition ex_b :: article where
  "ex_b = \<lparr>pmid = ''3'', title = ''aaaaaaaabb'', authors = [''Jo Smith''], journal = ''J'',
     pubDate = ''2020'', abstract = ''x'', doi = None, year = Some ''2020''\<rparr>"

definition ex_c :: article where
  "ex_c = \<lparr>pmid = ''4'', title = ''baaaaaaaaa'', authors = [''Jo Smith''], journal = ''J'',
     pubDate = ''2020'', abstract = ''x'', doi = None, year = Some ''2020''\<rparr>"

definition ex_y1 :: article where
  "ex_y1 = \<lparr>pmid = ''5'', title = ''A Large Trial'', authors = [''Jo Smith''], journal = ''J'',
     pubDate = ''2020'', abstract = ''x'', doi = None, year = Some ''20|20''\<rparr>"

definition ex_y2 :: article where
  "ex_y2 = \<lparr>pmid = ''6'', title = ''A Large Trials'', authors = [''Jo Smith''], journal = ''J'',
     pubDate = ''2020'', abstract = ''x'', doi = None, year = Some ''20|20''\<rparr>"

text \<open>
  Further example records: two without a DOI in the group of the ones above, and one
  that bears a DOI and whose PMID has the shape of a composite key.
\<close>

definition ex_d :: article where
  "ex_d = \<lparr>pmid = ''13'', title = ''aaaaaaabbb'', authors = [''Jo Smith''], journal = ''J'',
     pubDate = ''2020'', abstract = ''x'', doi = None, year = Some ''2020''\<rparr>"

definition ex_doiBar :: article where
  "ex_doiBar = \<lparr>pmid = ''aaaaaaaaaa|jo smith|2020'', title = ''Study Z'', authors = [''Ann Lee''], journal = ''J'',
     pubDate = ''2020'', abstract = ''x'', doi = Some ''10.9/z'', year = Some ''2020''\<rparr>"

definition ex_w :: article where
  "ex_w = \<lparr>pmid = ''14'', title = ''zzzzzzzzzz'', authors = [''Jo Smith''], journal = ''J'',
     pubDate = ''2020'', abstract = ''x'', doi = None, year = Some ''2020''\<rparr>"

section \<open>The matrix computes the edit distance\<close>

lemma lev_Nil2: "lev xs [] = length xs"
  by (cases xs) simp_all

lemma lev_sym: "lev xs ys = lev ys xs"
  by (induction xs ys rule: lev.induct) (simp_all add: lev_Nil2 min.commute min.left_commute)

lemma lev_zero_iff: "lev xs ys = 0 \<longleftrightarrow> xs = ys"
  by (induction xs ys rule: lev.induct) auto

lemma levRow_unfold: "levRow r p xs = lev r p # tl (levRow r p xs)"
  by (cases xs) simp_all

lemma fillRow_levRow:
  "fillRow c xs (levRow r p xs) (lev (c # r) p) = tl (levRow (c # r) p xs)"
proof (induction xs arbitrary: p)
  case Nil
  show ?case by simp
next
  case (Cons x xs)
  obtain rest where rest: "levRow r (x # p) xs = lev r (x # p) # rest"
    using levRow_unfold by blast
  obtain rest' where rest': "levRow (c # r) (x # p) xs = lev (c # r) (x # p) # rest'"
    using levRow_unfold by blast
  have "fillRow c (x # xs) (levRow r p (x # xs)) (lev (c # r) p) =
        lev (c # r) (x # p) # fillRow c xs (lev r (x # p) # rest) (lev (c # r) (x # p))"
    by (simp add: rest Let_def)
  also have "\<dots> = lev (c # r) (x # p) # tl (levRow (c # r) (x # p) xs)"
    using Cons.IH [of "x # p"] by (simp only: rest)
  also have "\<dots> = tl (levRow (c # r) p (x # xs))"
    by (simp add: rest')
  finally show ?case .
qed

lemma fillRows_levRow:
  "fillRows str1 cs (levRow r [] str1) (Suc (length r)) = levRow (rev cs @ r) [] str1"
proof (induction cs arbitrary: r)
  case Nil
  show ?case by simp
next
  case (Cons c cs)
  have "Suc (length r) # fillRow c str1 (levRow r [] str1) (Suc (length r)) = levRow (c # r) [] str1"
    using fillRow_levRow [of c str1 r "[]"] levRow_unfold [of "c # r" "[]" str1]
    by (simp add: lev_Nil2)
  then show ?case
    using Cons.IH [of "c # r"] by simp
qed

lemma levRow_Nil: "levRow [] p xs = [length p ..< Suc (length p + length xs)]"
proof (induction xs arbitrary: p)
  case Nil
  show ?case by (simp del: upt_Suc add: upt_conv_Cons)
next
  case (Cons x xs)
  show ?case
    by (simp del: upt_Suc add: Cons.IH upt_conv_Cons)
qed

lemma levRow_last: "levRow r p xs ! length xs = lev r (rev xs @ p)"
  by (induction xs arbitrary: p) simp_all

lemma levenshteinDistance_lev: "levenshteinDistance str1 str2 = lev (rev str2) (rev str1)"
proof -
  have "fillRows str1 str2 [0 ..< Suc (length str1)] 1 = levRow (rev str2) [] str1"
    using fillRows_levRow [of str1 str2 "[]"] levRow_Nil [of "[]" str1] by simp
  then show ?thesis
    by (simp add: levenshteinDistance_def levRow_last)
qed

text \<open>
  Claim C7. The Levenshtein distance is symmetric, it is a natural number that is 0
  exactly when the two strings are equal, and the distance between "kitten" and
  "sitting" is 3.
\<close>

theorem levenshteinDistance_symmetric_zero_kitten:
  "levenshteinDistance a b = levenshteinDistance b a \<and>
   (levenshteinDistance a b = 0 \<longleftrightarrow> a = b) \<and>
   levenshteinDistance ''kitten'' ''sitting'' = 3"
proof -
  have "levenshteinDistance ''kitten'' ''sitting'' = 3"
    by (simp add: levenshteinDistance_lev)
  then show ?thesis
    by (simp add: levenshteinDistance_lev lev_sym [of "rev b"] lev_zero_iff eq_commute [of a b])
qed

section \<open>The accepted map and one step of the loop\<close>

lemma map_set_keys:
  "map fst (map_set m k v) = (if k \<in> set (map fst m) then map fst m else map fst m @ [k])"
  by (induction m) (auto simp: rev_image_eqI)

lemma map_set_append: "k \<notin> set (map fst m) \<Longrightarrow> map_set m k v = m @ [(k, v)]"
  by (induction m) auto

lemma map_set_replace:
  "k \<in> set (map fst m) \<Longrightarrow>
   \<exists>m1 v0 m2. m = m1 @ (k, v0) # m2 \<and> k \<notin> set (map fst m1) \<and> map_set m k v = m1 @ (k, v) # m2"
proof (induction m)
  case Nil
  then show ?case by simp
next
  case (Cons e m)
  obtain k' v' where e: "e = (k', v')" by (cases e)
  show ?case
  proof (cases "k' = k")
    case True
    then have "e # m = [] @ (k, v') # m \<and> k \<notin> set (map fst []) \<and> map_set (e # m) k v = [] @ (k, v) # m"
      by (simp add: e)
    then show ?thesis by blast
  next
    case False
    with Cons.prems e have "k \<in> set (map fst m)" by auto
    from Cons.IH [OF this] obtain m1 v0 m2 where
      m: "m = m1 @ (k, v0) # m2" "k \<notin> set (map fst m1)" "map_set m k v = m1 @ (k, v) # m2"
      by blast
    have "e # m = (e # m1) @ (k, v0) # m2 \<and> k \<notin> set (map fst (e # m1))
          \<and> map_set (e # m) k v = (e # m1) @ (k, v) # m2"
      using m False by (simp add: e)
    then show ?thesis by blast
  qed
qed

lemma mset_map_set: "mset (map snd (map_set m k v)) \<subseteq># add_mset v (mset (map snd m))"
proof (cases "k \<in> set (map fst m)")
  case True
  from map_set_replace [OF this, of v] obtain m1 v0 m2 where
    m: "m = m1 @ (k, v0) # m2" "map_set m k v = m1 @ (k, v) # m2" by blast
  have "map snd (map_set m k v) = map snd m1 @ v # map snd m2"
    by (simp add: m(2))
  moreover have "map snd m = map snd m1 @ v0 # map snd m2"
    by (simp add: m(1))
  ultimately show ?thesis by simp
next
  case False
  then show ?thesis by (simp add: map_set_append)
qed

lemma dedupStep_doi_skip:
  "usableDoi a = Some d \<Longrightarrow> map_has dm (normalizeString d) \<Longrightarrow> dedupStep (um, dm) a = (um, dm)"
  by (simp add: dedupStep_def)

lemma dedupStep_doi_new:
  "usableDoi a = Some d \<Longrightarrow> \<not> map_has dm (normalizeString d) \<Longrightarrow>
   dedupStep (um, dm) a = (map_set um (pmid a) a, map_set dm (normalizeString d) True)"
  by (simp add: dedupStep_def)

lemma dedupStep_key_skip:
  "usableDoi a = None \<Longrightarrow> map_has um (compositeKeyOf a) \<Longrightarrow> dedupStep (um, dm) a = (um, dm)"
  by (simp add: dedupStep_def)

lemma dedupStep_fuzzy_skip:
  "usableDoi a = None \<Longrightarrow>
   isDuplicate (normalizeString (title a)) (firstAuthorOf a) (yearOf a) um \<Longrightarrow>
   dedupStep (um, dm) a = (um, dm)"
  by (simp add: dedupStep_def Let_def)

lemma dedupStep_accept:
  "usableDoi a = None \<Longrightarrow> \<not> map_has um (compositeKeyOf a) \<Longrightarrow>
   \<not> isDuplicate (normalizeString (title a)) (firstAuthorOf a) (yearOf a) um \<Longrightarrow>
   dedupStep (um, dm) a = (um @ [(compositeKeyOf a, a)], dm)"
  by (simp add: dedupStep_def Let_def map_has_def map_set_append)

lemma dedupStep_cases:
  obtains (skip) "dedupStep (um, dm) a = (um, dm)"
  | (doi) d where "usableDoi a = Some d" "\<not> map_has dm (normalizeString d)"
      "dedupStep (um, dm) a = (map_set um (pmid a) a, map_set dm (normalizeString d) True)"
  | (fuzzy) "usableDoi a = None" "\<not> map_has um (compositeKeyOf a)"
      "\<not> isDuplicate (normalizeString (title a)) (firstAuthorOf a) (yearOf a) um"
      "dedupStep (um, dm) a = (um @ [(compositeKeyOf a, a)], dm)"
proof (cases "usableDoi a")
  case None
  show ?thesis
  proof (cases "map_has um (compositeKeyOf a)
      \<or> isDuplicate (normalizeString (title a)) (firstAuthorOf a) (yearOf a) um")
    case True
    then have "dedupStep (um, dm) a = (um, dm)"
      using None dedupStep_key_skip dedupStep_fuzzy_skip by blast
    then show ?thesis by (rule skip)
  next
    case False
    then show ?thesis
      using None dedupStep_accept [of a um dm] fuzzy by blast
  qed
next
  case (Some d)
  show ?thesis
  proof (cases "map_has dm (normalizeString d)")
    case True
    then have "dedupStep (um, dm) a = (um, dm)"
      using Some by (rule_tac dedupStep_doi_skip)
    then show ?thesis by (rule skip)
  next
    case False
    then show ?thesis
      using Some dedupStep_doi_new [of a d dm um] doi by blast
  qed
qed

lemma dedupStep_mset:
  "mset (map snd (fst (dedupStep st a))) \<subseteq># add_mset a (mset (map snd (fst st)))"
proof -
  obtain um dm where st: "st = (um, dm)" by (cases st)
  show ?thesis
    unfolding st
  proof (rule dedupStep_cases [of um dm a])
    assume "dedupStep (um, dm) a = (um, dm)"
    then show "mset (map snd (fst (dedupStep (um, dm) a))) \<subseteq># add_mset a (mset (map snd (fst (um, dm))))"
      by simp
  next
    fix d
    assume "dedupStep (um, dm) a = (map_set um (pmid a) a, map_set dm (normalizeString d) True)"
    then show "mset (map snd (fst (dedupStep (um, dm) a))) \<subseteq># add_mset a (mset (map snd (fst (um, dm))))"
      using mset_map_set [of um "pmid a" a] by simp
  next
    assume "dedupStep (um, dm) a = (um @ [(compositeKeyOf a, a)], dm)"
    then show "mset (map snd (fst (dedupStep (um, dm) a))) \<subseteq># add_mset a (mset (map snd (fst (um, dm))))"
      by simp
  qed
qed

lemma foldl_dedupStep_mset:
  "mset (map snd (fst (foldl dedupStep st xs))) \<subseteq># mset (map snd (fst st)) + mset xs"
proof (induction xs arbitrary: st)
  case Nil
  show ?case by simp
next
  case (Cons a xs)
  have "mset (map snd (fst (foldl dedupStep (dedupStep st a) xs)))
        \<subseteq># mset (map snd (fst (dedupStep st a))) + mset xs"
    by (rule Cons.IH)
  also have "\<dots> \<subseteq># add_mset a (mset (map snd (fst st))) + mset xs"
    using dedupStep_mset [of st a] by (simp add: subset_mset.add_right_mono)
  finally show ?case by simp
qed

text \<open>
  Claim C10. Every record of the output is a record of the input, unchanged, no record
  occurs more often in the output than in the input, and the output is at most as long
  as the input.
\<close>

theorem deduplicateArticles_sub_input:
  "mset (deduplicateArticles xs) \<subseteq># mset xs \<and>
   set (deduplicateArticles xs) \<subseteq> set xs \<and>
   length (deduplicateArticles xs) \<le> length xs"
proof -
  have m: "mset (deduplicateArticles xs) \<subseteq># mset xs"
    using foldl_dedupStep_mset [of "([], [])" xs]
    by (simp add: deduplicateArticles_def map_values_def)
  have "set (deduplicateArticles xs) \<subseteq> set xs"
    using set_mset_mono [OF m] by simp
  moreover have "length (deduplicateArticles xs) \<le> length xs"
    using size_mset_mono [OF m] by simp
  ultimately show ?thesis using m by simp
qed

lemma doisOf_append: "doisOf (m1 @ m2) = doisOf m1 @ doisOf m2"
  by (simp add: doisOf_def)

lemma doisOf_Cons: "doisOf (e # m) = (case ndoiOf (snd e) of None \<Rightarrow> [] | Some d \<Rightarrow> [d]) @ doisOf m"
  by (simp add: doisOf_def)

lemma doisOf_Nil: "doisOf [] = []"
  by (simp add: doisOf_def)

lemma ndoiOf_Some: "usableDoi a = Some d \<Longrightarrow> ndoiOf a = Some (normalizeString d)"
  by (simp add: ndoiOf_def)

lemma ndoiOf_None: "usableDoi a = None \<Longrightarrow> ndoiOf a = None"
  by (simp add: ndoiOf_def)

lemma isDuplicate_keys:
  "map fst m = map fst m' \<Longrightarrow> isDuplicate t f y m = isDuplicate t f y m'"
proof (induction m arbitrary: m')
  case Nil
  then show ?case by simp
next
  case (Cons e m)
  then obtain e' m'' where m': "m' = e' # m''" by (cases m') auto
  with Cons.prems have k: "fst e' = fst e" and r: "map fst m = map fst m''" by auto
  obtain k1 v1 where e: "e = (k1, v1)" by (cases e)
  obtain k2 v2 where e': "e' = (k2, v2)" by (cases e')
  from k e e' have kk: "k2 = k1" by simp
  show ?case
    using Cons.IH [OF r] by (simp add: m' e e' kk split: list.splits)
qed

lemma acceptedOK_append:
  "acceptedOK pre (m1 @ m2) = (acceptedOK pre m1 \<and> acceptedOK (pre @ m1) m2)"
  by (induction m1 arbitrary: pre) auto

lemma acceptedOK_keys:
  "map fst pre = map fst pre' \<Longrightarrow> acceptedOK pre m = acceptedOK pre' m"
proof (induction m arbitrary: pre pre')
  case Nil
  show ?case by simp
next
  case (Cons e m)
  have "map fst (pre @ [e]) = map fst (pre' @ [e])"
    using Cons.prems by simp
  from Cons.IH [OF this] isDuplicate_keys [OF Cons.prems]
  show ?case by simp
qed

lemma keyOf_Some: "usableDoi a = Some d \<Longrightarrow> keyOf a = pmid a"
  by (simp add: keyOf_def)

lemma keyOf_None: "usableDoi a = None \<Longrightarrow> keyOf a = compositeKeyOf a"
  by (simp add: keyOf_def)

lemma stateInv_doi_new:
  assumes inv: "stateInv (um, dm)" and u: "usableDoi a = Some d"
    and new: "\<not> map_has dm (normalizeString d)"
  shows "stateInv (map_set um (pmid a) a, map_set dm (normalizeString d) True)"
proof -
  let ?d = "normalizeString d"
  from inv have dk: "distinct (map fst um)" and ky: "\<forall>e \<in> set um. fst e = keyOf (snd e)"
    and dd: "distinct (doisOf um)" and sub: "set (doisOf um) \<subseteq> set (map fst dm)"
    and acc: "acceptedOK [] um"
    by (simp_all add: stateInv_def)
  from new sub have fresh: "?d \<notin> set (doisOf um)"
    by (auto simp: map_has_def)
  have dmk: "set (map fst (map_set dm ?d True)) = insert ?d (set (map fst dm))"
    by (auto simp: map_set_keys)
  show ?thesis
  proof (cases "pmid a \<in> set (map fst um)")
    case False
    then have eq: "map_set um (pmid a) a = um @ [(pmid a, a)]"
      by (rule map_set_append)
    have "distinct (doisOf (um @ [(pmid a, a)]))"
      using dd fresh by (simp add: doisOf_append doisOf_Cons doisOf_Nil ndoiOf_Some [OF u])
    moreover have "set (doisOf (um @ [(pmid a, a)])) \<subseteq> insert ?d (set (map fst dm))"
      using sub by (auto simp: doisOf_append doisOf_Cons doisOf_Nil ndoiOf_Some [OF u])
    moreover have "acceptedOK [] (um @ [(pmid a, a)])"
      using acc u by (simp add: acceptedOK_append)
    moreover have "\<forall>e \<in> set (um @ [(pmid a, a)]). fst e = keyOf (snd e)"
      using ky by (auto simp: keyOf_Some [OF u])
    moreover have "distinct (map fst (um @ [(pmid a, a)]))"
      using dk False by simp
    ultimately show ?thesis
      unfolding stateInv_def eq fst_conv snd_conv dmk by blast
  next
    case True
    from map_set_replace [OF True, of a] obtain m1 v0 m2 where
      um: "um = m1 @ (pmid a, v0) # m2" and eq: "map_set um (pmid a) a = m1 @ (pmid a, a) # m2"
      by blast
    have keys: "map fst (m1 @ (pmid a, a) # m2) = map fst um"
      by (simp add: um)
    have "distinct (doisOf (m1 @ (pmid a, a) # m2))"
      using dd fresh
      by (auto simp: um doisOf_append doisOf_Cons ndoiOf_Some [OF u] split: option.splits)
    moreover have "set (doisOf (m1 @ (pmid a, a) # m2)) \<subseteq> insert ?d (set (map fst dm))"
      using sub
      by (auto simp: um doisOf_append doisOf_Cons ndoiOf_Some [OF u] split: option.splits)
    moreover have "acceptedOK [] (m1 @ (pmid a, a) # m2)"
    proof -
      from acc have a1: "acceptedOK [] m1" and a2: "acceptedOK (m1 @ [(pmid a, v0)]) m2"
        by (simp_all add: um acceptedOK_append)
      have "acceptedOK (m1 @ [(pmid a, a)]) m2 = acceptedOK (m1 @ [(pmid a, v0)]) m2"
        by (rule acceptedOK_keys) simp
      with a1 a2 u show ?thesis
        by (simp add: acceptedOK_append)
    qed
    moreover have "\<forall>e \<in> set (m1 @ (pmid a, a) # m2). fst e = keyOf (snd e)"
      using ky by (auto simp: um keyOf_Some [OF u])
    moreover have "distinct (map fst (m1 @ (pmid a, a) # m2))"
      using dk keys by simp
    ultimately show ?thesis
      unfolding stateInv_def eq fst_conv snd_conv dmk by blast
  qed
qed

lemma stateInv_accept:
  assumes inv: "stateInv (um, dm)" and u: "usableDoi a = None"
    and nk: "\<not> map_has um (compositeKeyOf a)"
    and nd: "\<not> isDuplicate (normalizeString (title a)) (firstAuthorOf a) (yearOf a) um"
  shows "stateInv (um @ [(compositeKeyOf a, a)], dm)"
  using assms
  by (simp add: stateInv_def map_has_def acceptedOK_append doisOf_append doisOf_Cons doisOf_Nil
      ndoiOf_None keyOf_None)

lemma stateInv_step: "stateInv st \<Longrightarrow> stateInv (dedupStep st a)"
proof -
  assume inv: "stateInv st"
  obtain um dm where st: "st = (um, dm)" by (cases st)
  show ?thesis
    unfolding st
  proof (rule dedupStep_cases [of um dm a])
    assume "dedupStep (um, dm) a = (um, dm)"
    with inv st show "stateInv (dedupStep (um, dm) a)" by simp
  next
    fix d
    assume "usableDoi a = Some d" "\<not> map_has dm (normalizeString d)"
      "dedupStep (um, dm) a = (map_set um (pmid a) a, map_set dm (normalizeString d) True)"
    with inv st stateInv_doi_new show "stateInv (dedupStep (um, dm) a)" by simp
  next
    assume "usableDoi a = None" "\<not> map_has um (compositeKeyOf a)"
      "\<not> isDuplicate (normalizeString (title a)) (firstAuthorOf a) (yearOf a) um"
      "dedupStep (um, dm) a = (um @ [(compositeKeyOf a, a)], dm)"
    with inv st stateInv_accept show "stateInv (dedupStep (um, dm) a)" by simp
  qed
qed

lemma stateInv_foldl: "stateInv st \<Longrightarrow> stateInv (foldl dedupStep st xs)"
  by (induction xs arbitrary: st) (simp_all add: stateInv_step)

lemma stateInv_init: "stateInv ([], [])"
  by (simp add: stateInv_def doisOf_Nil)

lemma rerun:
  "distinct (map fst (pre @ m)) \<Longrightarrow> \<forall>e \<in> set m. fst e = keyOf (snd e) \<Longrightarrow>
   distinct (doisOf (pre @ m)) \<Longrightarrow> acceptedOK pre m \<Longrightarrow>
   foldl dedupStep (pre, dmOf pre) (map snd m) = (pre @ m, dmOf (pre @ m))"
proof (induction m arbitrary: pre)
  case Nil
  show ?case by simp
next
  case (Cons e m)
  obtain k v where e: "e = (k, v)" by (cases e)
  from Cons.prems have k: "k = keyOf v" and knew: "k \<notin> set (map fst pre)"
    by (auto simp: e)
  have step: "dedupStep (pre, dmOf pre) v = (pre @ [e], dmOf (pre @ [e]))"
  proof (cases "usableDoi v")
    case None
    from Cons.prems(4) None
    have "\<not> isDuplicate (normalizeString (title v)) (firstAuthorOf v) (yearOf v) pre"
      by (simp add: e)
    moreover have "\<not> map_has pre (compositeKeyOf v)"
      using knew k by (simp add: map_has_def keyOf_None [OF None])
    ultimately have "dedupStep (pre, dmOf pre) v = (pre @ [(compositeKeyOf v, v)], dmOf pre)"
      using None by (rule_tac dedupStep_accept)
    then show ?thesis
      using k by (simp add: e keyOf_None [OF None] dmOf_def doisOf_append doisOf_Cons doisOf_Nil
          ndoiOf_None [OF None])
  next
    case (Some d)
    from Cons.prems(3) have "normalizeString d \<notin> set (doisOf pre)"
      by (simp add: e doisOf_append doisOf_Cons ndoiOf_Some [OF Some])
    then have nh: "\<not> map_has (dmOf pre) (normalizeString d)"
      by (simp add: map_has_def dmOf_def comp_def)
    then have nh': "normalizeString d \<notin> set (map fst (dmOf pre))"
      by (simp add: map_has_def)
    have "dedupStep (pre, dmOf pre) v =
          (map_set pre (pmid v) v, map_set (dmOf pre) (normalizeString d) True)"
      using Some nh by (rule dedupStep_doi_new)
    also have "map_set pre (pmid v) v = pre @ [e]"
      using knew k map_set_append [of "pmid v" pre v] by (simp add: e keyOf_Some [OF Some])
    also have "map_set (dmOf pre) (normalizeString d) True = dmOf (pre @ [e])"
      using map_set_append [OF nh', of True]
      by (simp add: dmOf_def doisOf_append doisOf_Cons doisOf_Nil e ndoiOf_Some [OF Some])
    finally show ?thesis .
  qed
  have "foldl dedupStep (pre @ [e], dmOf (pre @ [e])) (map snd m) = ((pre @ [e]) @ m, dmOf ((pre @ [e]) @ m))"
    using Cons.prems by (intro Cons.IH) simp_all
  then show ?case
    by (simp add: step e)
qed

text \<open>
  Claim C4. Deduplication is idempotent: running it on its own output returns that
  output, as a list and hence as a multiset of the identifier fields.
\<close>

theorem deduplicateArticles_idempotent:
  "deduplicateArticles (deduplicateArticles xs) = deduplicateArticles xs \<and>
   mset (map pmid (deduplicateArticles (deduplicateArticles xs))) = mset (map pmid (deduplicateArticles xs))"
proof -
  obtain um dm where st: "foldl dedupStep ([], []) xs = (um, dm)"
    by (cases "foldl dedupStep ([], []) xs")
  have "stateInv (um, dm)"
    using stateInv_foldl [OF stateInv_init, of xs] by (simp add: st)
  then have "foldl dedupStep ([], dmOf []) (map snd um) = ([] @ um, dmOf ([] @ um))"
    by (intro rerun) (simp_all add: stateInv_def)
  then have "deduplicateArticles (map snd um) = map snd um"
    by (simp add: deduplicateArticles_def map_values_def dmOf_def doisOf_Nil)
  moreover have "deduplicateArticles xs = map snd um"
    by (simp add: deduplicateArticles_def map_values_def st)
  ultimately show ?thesis by simp
qed

section \<open>The result of normalization\<close>

lemma code_space: "code (CHR '' '') = 32" "code (CHR ''_'') = 95" "code (CHR ''|'') = 124"
  by (simp_all add: code_def)

lemma code_inj: "code c = code c' \<Longrightarrow> c = c'"
  by (simp add: code_def)

lemma toLowerChar_not_upper: "\<not> (65 \<le> code (toLowerChar c) \<and> code (toLowerChar c) \<le> 90)"
  by (auto simp: toLowerChar_def code_def)

lemma removePunctuation_lower:
  "c \<in> set (removePunctuation (toLowerCase s)) \<Longrightarrow>
   isLowerLetter c \<or> isDigit c \<or> c = CHR ''_'' \<or> isWhiteSpace c"
proof -
  assume "c \<in> set (removePunctuation (toLowerCase s))"
  then obtain c0 where c: "c = toLowerChar c0" and w: "isWordChar c \<or> isWhiteSpace c"
    by (auto simp: removePunctuation_def toLowerCase_def)
  from toLowerChar_not_upper [of c0] c have "\<not> (65 \<le> code c \<and> code c \<le> 90)" by simp
  with w show ?thesis
    using code_inj [of c "CHR ''_''"]
    by (auto simp: isWordChar_def isLowerLetter_def isDigit_def code_space)
qed

lemma collapseWhitespace_set:
  "c \<in> set (collapseWhitespace s) \<Longrightarrow> (c \<in> set s \<and> \<not> isWhiteSpace c) \<or> c = CHR '' ''"
proof (induction s arbitrary: c rule: collapseWhitespace.induct)
  case 1
  then show ?case by simp
next
  case (2 x xs)
  show ?case
  proof (cases "isWhiteSpace x")
    case True
    with "2.prems" have "c = CHR '' '' \<or> c \<in> set (collapseWhitespace (dropWhile isWhiteSpace xs))"
      by auto
    then show ?thesis
      using "2.IH"(1) [OF True] set_dropWhileD [of c isWhiteSpace xs] by auto
  next
    case False
    with "2.prems" have "c = x \<or> c \<in> set (collapseWhitespace xs)" by auto
    then show ?thesis
      using "2.IH"(2) [OF False] False by auto
  qed
qed

lemma trim_sublist: "\<exists>p q. s = p @ trim s @ q"
proof -
  let ?r = "dropWhile isWhiteSpace s"
  have "s = takeWhile isWhiteSpace s @ ?r" by simp
  moreover have "rev ?r = takeWhile isWhiteSpace (rev ?r) @ dropWhile isWhiteSpace (rev ?r)"
    by simp
  then have "?r = trim s @ rev (takeWhile isWhiteSpace (rev ?r))"
    unfolding trim_def by (metis rev_append rev_rev_ident)
  ultimately have "s = takeWhile isWhiteSpace s @ trim s @ rev (takeWhile isWhiteSpace (rev ?r))"
    by simp
  then show ?thesis by blast
qed

lemma trim_set: "c \<in> set (trim s) \<Longrightarrow> c \<in> set s"
  using trim_sublist [of s] by (metis Un_iff set_append)

lemma normalizeString_chars: "c \<in> set (normalizeString s) \<Longrightarrow> normalChar c"
proof -
  assume "c \<in> set (normalizeString s)"
  then have "c \<in> set (collapseWhitespace (removePunctuation (toLowerCase s)))"
    unfolding normalizeString_def by (rule trim_set)
  then have "(c \<in> set (removePunctuation (toLowerCase s)) \<and> \<not> isWhiteSpace c) \<or> c = CHR '' ''"
    by (rule collapseWhitespace_set)
  then show ?thesis
    using removePunctuation_lower [of c s] by (auto simp: normalChar_def)
qed

lemma bar_notin_normalizeString: "CHR ''|'' \<notin> set (normalizeString s)"
proof
  assume "CHR ''|'' \<in> set (normalizeString s)"
  then have "normalChar (CHR ''|'')" by (rule normalizeString_chars)
  then show False
    by (simp add: normalChar_def isLowerLetter_def isDigit_def code_def)
qed

lemma trim_hd: "trim s \<noteq> [] \<Longrightarrow> \<not> isWhiteSpace (hd (trim s))"
proof -
  assume ne: "trim s \<noteq> []"
  let ?r = "dropWhile isWhiteSpace s"
  have t: "?r = trim s @ rev (takeWhile isWhiteSpace (rev ?r))"
  proof -
    have "rev ?r = takeWhile isWhiteSpace (rev ?r) @ dropWhile isWhiteSpace (rev ?r)"
      by simp
    then show ?thesis
      unfolding trim_def by (metis rev_append rev_rev_ident)
  qed
  with ne have "?r \<noteq> []" by (metis append_is_Nil_conv)
  then have "\<not> isWhiteSpace (hd ?r)"
    by (rule hd_dropWhile)
  moreover from t ne have "hd ?r = hd (trim s)"
    by (metis hd_append2)
  ultimately show ?thesis by simp
qed

lemma trim_last: "trim s \<noteq> [] \<Longrightarrow> \<not> isWhiteSpace (last (trim s))"
proof -
  assume ne: "trim s \<noteq> []"
  let ?q = "dropWhile isWhiteSpace (rev (dropWhile isWhiteSpace s))"
  from ne have q: "?q \<noteq> []" by (simp add: trim_def)
  then have "\<not> isWhiteSpace (hd ?q)" by (rule hd_dropWhile)
  moreover have "last (trim s) = hd ?q"
    using q by (simp add: trim_def last_rev)
  ultimately show ?thesis by simp
qed

lemma collapseWhitespace_hd:
  "s \<noteq> [] \<Longrightarrow> \<not> isWhiteSpace (hd s) \<Longrightarrow> collapseWhitespace s = hd s # collapseWhitespace (tl s)"
  by (cases s) simp_all

lemma collapseWhitespace_no_double:
  "collapseWhitespace s = u @ a # b # v \<Longrightarrow> \<not> (isWhiteSpace a \<and> isWhiteSpace b)"
proof (induction s arbitrary: u rule: collapseWhitespace.induct)
  case 1
  then show ?case by simp
next
  case (2 x xs)
  show ?case
  proof (cases "isWhiteSpace x")
    case True
    let ?r = "dropWhile isWhiteSpace xs"
    from True "2.prems" have eq: "CHR '' '' # collapseWhitespace ?r = u @ a # b # v" by simp
    show ?thesis
    proof (cases u)
      case Nil
      with eq have a: "a = CHR '' ''" and r: "collapseWhitespace ?r = b # v" by simp_all
      from r have "?r \<noteq> []" by (metis collapseWhitespace.simps(1) list.distinct(1))
      then have nw: "\<not> isWhiteSpace (hd ?r)" by (rule hd_dropWhile)
      from collapseWhitespace_hd [OF \<open>?r \<noteq> []\<close> nw] r have "b = hd ?r" by simp
      with nw show ?thesis by simp
    next
      case (Cons y u')
      with eq have "collapseWhitespace ?r = u' @ a # b # v" by simp
      from "2.IH"(1) [OF True this] show ?thesis .
    qed
  next
    case False
    from False "2.prems" have eq: "x # collapseWhitespace xs = u @ a # b # v" by simp
    show ?thesis
    proof (cases u)
      case Nil
      with eq False show ?thesis by simp
    next
      case (Cons y u')
      with eq have "collapseWhitespace xs = u' @ a # b # v" by simp
      from "2.IH"(2) [OF False this] show ?thesis .
    qed
  qed
qed

lemma isWhiteSpace_space: "isWhiteSpace (CHR '' '')"
  by (simp add: isWhiteSpace_def code_def)

lemma normalizeString_no_double_space: "normalizeString s \<noteq> u @ ''  '' @ v"
proof
  assume eq: "normalizeString s = u @ ''  '' @ v"
  let ?c = "collapseWhitespace (removePunctuation (toLowerCase s))"
  from trim_sublist [of ?c] obtain p q where "?c = p @ normalizeString s @ q"
    unfolding normalizeString_def by blast
  with eq have "?c = (p @ u) @ CHR '' '' # CHR '' '' # (v @ q)" by simp
  from collapseWhitespace_no_double [OF this] show False
    by (simp add: isWhiteSpace_space)
qed

text \<open>
  Claim C6, as amended. \<open>normalizeString\<close> lower-cases its input, deletes every character
  that is neither a word character of the class \<open>\w\<close> (an ASCII letter, a digit or the
  underscore) nor white space, replaces each run of white space by one space and trims.
  Hence every character of the result is a lower-case ASCII letter, a digit, an
  underscore or a space, and a space is neither the first nor the last character nor next
  to another space.
\<close>

theorem normalizeString_output:
  "normalizeString s =
     trim (collapseWhitespace (filter (\<lambda>c. isWordChar c \<or> isWhiteSpace c) (map toLowerChar s))) \<and>
   (\<forall>c \<in> set (normalizeString s). isLowerLetter c \<or> isDigit c \<or> c = CHR ''_'' \<or> c = CHR '' '') \<and>
   (normalizeString s \<noteq> [] \<longrightarrow>
      hd (normalizeString s) \<noteq> CHR '' '' \<and> last (normalizeString s) \<noteq> CHR '' '') \<and>
   (\<forall>u v. normalizeString s \<noteq> u @ ''  '' @ v)"
proof (intro conjI ballI impI allI)
  show "normalizeString s =
     trim (collapseWhitespace (filter (\<lambda>c. isWordChar c \<or> isWhiteSpace c) (map toLowerChar s)))"
    by (simp add: normalizeString_def removePunctuation_def toLowerCase_def)
next
  fix c assume "c \<in> set (normalizeString s)"
  then show "isLowerLetter c \<or> isDigit c \<or> c = CHR ''_'' \<or> c = CHR '' ''"
    using normalizeString_chars [of c s] by (simp add: normalChar_def)
next
  assume "normalizeString s \<noteq> []"
  then show "hd (normalizeString s) \<noteq> CHR '' ''"
    using trim_hd [of "collapseWhitespace (removePunctuation (toLowerCase s))"] isWhiteSpace_space
    unfolding normalizeString_def by metis
next
  assume "normalizeString s \<noteq> []"
  then show "last (normalizeString s) \<noteq> CHR '' ''"
    using trim_last [of "collapseWhitespace (removePunctuation (toLowerCase s))"] isWhiteSpace_space
    unfolding normalizeString_def by metis
next
  fix u v show "normalizeString s \<noteq> u @ ''  '' @ v"
    by (rule normalizeString_no_double_space)
qed

text \<open>
  Claim C6 as stated fails: the class \<open>\w\<close> is \<open>[A-Za-z0-9_]\<close>. The underscore belongs to
  it, so it survives normalization, and it is neither a letter, nor a digit, nor a space.
  The letter U+00E9 (e with acute accent) does not belong to it and is removed.
\<close>

theorem normalizeString_underscore:
  "normalizeString ''a_b'' = ''a_b'' \<and> \<not> isLowerLetter (CHR ''_'') \<and> \<not> isDigit (CHR ''_'')
   \<and> CHR ''_'' \<noteq> CHR '' '' \<and> normalizeString (''caf'' @ [CHR 0xE9]) = ''caf''"
  by code_simp

text \<open>The amended claim at the input \<open>"  Hello,  World_1! "\<close>.\<close>

theorem normalizeString_output_witness:
  "normalizeString ''  Hello,  World_1! '' = ''hello world_1'' \<and>
   hd (normalizeString ''  Hello,  World_1! '') \<noteq> CHR '' '' \<and>
   last (normalizeString ''  Hello,  World_1! '') \<noteq> CHR '' '' \<and>
   list_all (\<lambda>c. isLowerLetter c \<or> isDigit c \<or> c = CHR ''_'' \<or> c = CHR '' '')
     (normalizeString ''  Hello,  World_1! '')"
proof -
  have e: "normalizeString ''  Hello,  World_1! '' = ''hello world_1''" by code_simp
  then have ne: "normalizeString ''  Hello,  World_1! '' \<noteq> []" by simp
  from conjunct2 [OF normalizeString_output [of "''  Hello,  World_1! ''"]] ne e
  show ?thesis by (simp add: list_all_iff)
qed
section \<open>Tier 1: records that bear a DOI\<close>

lemma map_set_mem_new: "(k, v) \<in> set (map_set m k v)"
  by (induction m) auto

lemma map_set_mem_old: "(k', v') \<in> set m \<Longrightarrow> k' \<noteq> k \<Longrightarrow> (k', v') \<in> set (map_set m k v)"
  by (induction m) auto

lemma dedupStep_dm_keys:
  "set (map fst (snd (dedupStep st a))) =
   set (map fst (snd st)) \<union> (case ndoiOf a of None \<Rightarrow> {} | Some d \<Rightarrow> {d})"
proof -
  obtain um dm where st: "st = (um, dm)" by (cases st)
  show ?thesis
  proof (cases "usableDoi a")
    case None
    have "snd (dedupStep (um, dm) a) = dm"
      by (rule dedupStep_cases [of um dm a]) (simp_all add: None)
    then show ?thesis by (simp add: st ndoiOf_None [OF None])
  next
    case (Some d)
    show ?thesis
    proof (cases "map_has dm (normalizeString d)")
      case True
      then show ?thesis
        using dedupStep_doi_skip [OF Some True, of um]
        by (auto simp: st ndoiOf_Some [OF Some] map_has_def)
    next
      case False
      then show ?thesis
        using dedupStep_doi_new [OF Some False, of um]
        by (auto simp: st ndoiOf_Some [OF Some] map_set_keys)
    qed
  qed
qed

lemma foldl_dm_keys:
  "set (map fst (snd (foldl dedupStep st xs))) =
   set (map fst (snd st)) \<union> {d. \<exists>a \<in> set xs. ndoiOf a = Some d}"
proof (induction xs arbitrary: st)
  case Nil
  show ?case by simp
next
  case (Cons a xs)
  have "set (map fst (snd (foldl dedupStep (dedupStep st a) xs))) =
        set (map fst (snd (dedupStep st a))) \<union> {d. \<exists>a \<in> set xs. ndoiOf a = Some d}"
    by (rule Cons.IH)
  also have "set (map fst (snd (dedupStep st a))) =
        set (map fst (snd st)) \<union> (case ndoiOf a of None \<Rightarrow> {} | Some d \<Rightarrow> {d})"
    by (rule dedupStep_dm_keys)
  finally show ?case
    by (auto split: option.splits)
qed

lemma find_append:
  "find P (xs @ ys) = (case find P xs of Some x \<Rightarrow> Some x | None \<Rightarrow> find P ys)"
  by (induction xs) simp_all

lemma later_doi_skipped:
  assumes "\<exists>a \<in> set pre. ndoiOf a = Some d" and "ndoiOf b = Some d"
  shows "dedupStep (foldl dedupStep ([], []) pre) b = foldl dedupStep ([], []) pre"
proof -
  obtain um dm where st: "foldl dedupStep ([], []) pre = (um, dm)"
    by (cases "foldl dedupStep ([], []) pre")
  from assms(2) obtain d0 where u: "usableDoi b = Some d0" and d: "d = normalizeString d0"
    by (auto simp: ndoiOf_def)
  have "d \<in> set (map fst dm)"
    using foldl_dm_keys [of "([], [])" pre] assms(1) by (simp add: st)
  then have "map_has dm (normalizeString d0)"
    by (simp add: map_has_def d)
  from dedupStep_doi_skip [OF u this] show ?thesis
    by (simp add: st)
qed

lemma first_doi_kept:
  "pmidDeterminesDoi pre \<Longrightarrow> find (hasDoi d) pre = Some r \<Longrightarrow>
   (pmid r, r) \<in> set (fst (foldl dedupStep ([], []) pre))"
proof (induction pre arbitrary: d r rule: rev_induct)
  case Nil
  then show ?case by simp
next
  case (snoc b pre)
  obtain um dm where st: "foldl dedupStep ([], []) pre = (um, dm)"
    by (cases "foldl dedupStep ([], []) pre")
  have H: "pmidDeterminesDoi pre"
    using snoc.prems(1) by (simp add: pmidDeterminesDoi_def)
  have dmk: "fst ` set dm = {d. \<exists>a \<in> set pre. ndoiOf a = Some d}"
    using foldl_dm_keys [of "([], [])" pre] by (simp add: st)
  show ?case
  proof (cases "find (hasDoi d) pre")
    case (Some r')
    with snoc.prems(2) have r: "r' = r" by (simp add: find_append)
    from snoc.IH [OF H Some] have mem: "(pmid r, r) \<in> set um"
      by (simp add: st r)
    from Some r have rin: "r \<in> set pre" and rd: "ndoiOf r = Some d"
      by (auto simp: find_Some_iff hasDoi_def)
    have "(pmid r, r) \<in> set (fst (dedupStep (um, dm) b))"
    proof (rule dedupStep_cases [of um dm b])
      assume "dedupStep (um, dm) b = (um, dm)"
      with mem show ?thesis by simp
    next
      assume "dedupStep (um, dm) b = (um @ [(compositeKeyOf b, b)], dm)"
      with mem show ?thesis by simp
    next
      fix d0
      assume u: "usableDoi b = Some d0" and new: "\<not> map_has dm (normalizeString d0)"
        and eq: "dedupStep (um, dm) b = (map_set um (pmid b) b, map_set dm (normalizeString d0) True)"
      have "pmid r \<noteq> pmid b"
      proof
        assume same: "pmid r = pmid b"
        have "ndoiOf r = ndoiOf b"
          using snoc.prems(1) rin rd same ndoiOf_Some [OF u]
          by (simp add: pmidDeterminesDoi_def)
        then have "normalizeString d0 \<in> set (map fst dm)"
          using rin rd ndoiOf_Some [OF u] by (auto simp: dmk)
        with new show False by (simp add: map_has_def)
      qed
      with mem show ?thesis
        by (simp add: eq map_set_mem_old)
    qed
    then show ?thesis by (simp add: st)
  next
    case None
    with snoc.prems(2) have b: "hasDoi d b" and r: "r = b"
      by (auto simp: find_append split: if_splits)
    from b obtain d0 where u: "usableDoi b = Some d0" and d: "d = normalizeString d0"
      by (auto simp: hasDoi_def ndoiOf_def)
    from None have "\<forall>a \<in> set pre. ndoiOf a \<noteq> Some d"
      by (simp add: find_None_iff hasDoi_def)
    then have "\<not> map_has dm (normalizeString d0)"
      by (auto simp: map_has_def dmk d)
    from dedupStep_doi_new [OF u this, of um] show ?thesis
      by (simp add: st r map_set_mem_new)
  qed
qed

lemma filter_hasDoi_empty:
  "d \<notin> set (doisOf m) \<Longrightarrow> filter (hasDoi d) (map snd m) = []"
  by (induction m) (auto simp: doisOf_Cons hasDoi_def split: option.splits)

lemma filter_hasDoi_le1:
  "distinct (doisOf m) \<Longrightarrow> length (filter (hasDoi d) (map snd m)) \<le> 1"
proof (induction m)
  case Nil
  show ?case by simp
next
  case (Cons e m)
  show ?case
  proof (cases "hasDoi d (snd e)")
    case True
    with Cons.prems have "d \<notin> set (doisOf m)"
      by (simp add: doisOf_Cons hasDoi_def)
    from filter_hasDoi_empty [OF this] True show ?thesis by simp
  next
    case False
    with Cons show ?thesis
      by (simp add: doisOf_Cons split: option.splits)
  qed
qed

lemma filter_le1_mem:
  "length (filter P zs) \<le> 1 \<Longrightarrow> r \<in> set zs \<Longrightarrow> P r \<Longrightarrow> filter P zs = [r]"
proof -
  assume le: "length (filter P zs) \<le> 1" and "r \<in> set zs" "P r"
  then have "r \<in> set (filter P zs)" by simp
  with le show ?thesis
    by (cases "filter P zs") auto
qed

lemma output_doi_le1: "length (filter (hasDoi d) (deduplicateArticles xs)) \<le> 1"
proof -
  have "stateInv (foldl dedupStep ([], []) xs)"
    by (rule stateInv_foldl [OF stateInv_init])
  then have "distinct (doisOf (fst (foldl dedupStep ([], []) xs)))"
    by (simp add: stateInv_def)
  from filter_hasDoi_le1 [OF this] show ?thesis
    by (simp add: deduplicateArticles_def map_values_def)
qed

lemma first_doi_in_output:
  assumes "pmidDeterminesDoi xs" and "find (hasDoi d) xs = Some r"
  shows "r \<in> set (deduplicateArticles xs)"
proof -
  from first_doi_kept [OF assms] have "snd (pmid r, r) \<in> snd ` set (fst (foldl dedupStep ([], []) xs))"
    by (rule imageI)
  then show ?thesis
    by (simp add: deduplicateArticles_def map_values_def)
qed

lemma new_doi_stored:
  assumes "hasDoi d b" and "\<forall>a \<in> set pre. \<not> hasDoi d a"
  shows "b \<in> set (deduplicateArticles (pre @ [b]))"
proof -
  obtain um dm where st: "foldl dedupStep ([], []) pre = (um, dm)"
    by (cases "foldl dedupStep ([], []) pre")
  from assms(1) obtain d0 where u: "usableDoi b = Some d0" and d: "d = normalizeString d0"
    by (auto simp: hasDoi_def ndoiOf_def)
  have "fst ` set dm = {d. \<exists>a \<in> set pre. ndoiOf a = Some d}"
    using foldl_dm_keys [of "([], [])" pre] by (simp add: st)
  with assms(2) have "\<not> map_has dm (normalizeString d0)"
    by (auto simp: map_has_def d hasDoi_def)
  from dedupStep_doi_new [OF u this, of um]
  have "dedupStep (um, dm) b = (map_set um (pmid b) b, map_set dm (normalizeString d0) True)" .
  moreover have "snd (pmid b, b) \<in> snd ` set (map_set um (pmid b) b)"
    using map_set_mem_new [of "pmid b" b um] by (rule imageI)
  ultimately show ?thesis
    by (simp add: deduplicateArticles_def map_values_def st)
qed

text \<open>
  Claim C2, as amended. A record bears a DOI when its \<open>doi\<close> is present and not blank.
  For every input and every normalized DOI \<open>d\<close>: the output holds at most one record that
  bears a DOI with normal form \<open>d\<close>; such a record is skipped when an earlier record bears
  a DOI with the same normal form (the step leaves both maps as they are), whatever its
  other fields; and when DOI-bearing records that share a PMID share their normalized
  DOI, the output holds exactly one such record, the earliest of the input.
\<close>

theorem same_doi_collapse:
  "length (filter (hasDoi d) (deduplicateArticles xs)) \<le> 1 \<and>
   ((\<exists>a \<in> set pre. hasDoi d a) \<and> hasDoi d b \<longrightarrow>
      dedupStep (foldl dedupStep ([], []) pre) b = foldl dedupStep ([], []) pre) \<and>
   (pmidDeterminesDoi xs \<and> find (hasDoi d) xs = Some r \<longrightarrow>
      filter (hasDoi d) (deduplicateArticles xs) = [r])"
proof (intro conjI impI)
  show "length (filter (hasDoi d) (deduplicateArticles xs)) \<le> 1"
    by (rule output_doi_le1)
next
  assume "(\<exists>a \<in> set pre. hasDoi d a) \<and> hasDoi d b"
  then show "dedupStep (foldl dedupStep ([], []) pre) b = foldl dedupStep ([], []) pre"
    using later_doi_skipped [of pre d b] by (simp add: hasDoi_def)
next
  assume a: "pmidDeterminesDoi xs \<and> find (hasDoi d) xs = Some r"
  then have "r \<in> set (deduplicateArticles xs)"
    using first_doi_in_output by blast
  moreover from a have "hasDoi d r"
    by (auto simp: find_Some_iff)
  ultimately show "filter (hasDoi d) (deduplicateArticles xs) = [r]"
    using filter_le1_mem [OF output_doi_le1] by blast
qed

text \<open>The amended claim on two records with the DOIs \<open>10.1/a\<close> and \<open>10.1/A\<close>.\<close>

theorem same_doi_collapse_witness:
  "pmidDeterminesDoi [ex_doiA, ex_doiA'] \<and> find (hasDoi ''101a'') [ex_doiA, ex_doiA'] = Some ex_doiA \<and>
   filter (hasDoi ''101a'') (deduplicateArticles [ex_doiA, ex_doiA']) = [ex_doiA] \<and>
   dedupStep (foldl dedupStep ([], []) [ex_doiA]) ex_doiA' = foldl dedupStep ([], []) [ex_doiA]"
proof -
  have h1: "pmidDeterminesDoi [ex_doiA, ex_doiA']" by code_simp
  have h2: "find (hasDoi ''101a'') [ex_doiA, ex_doiA'] = Some ex_doiA" by code_simp
  have h3: "(\<exists>a \<in> set [ex_doiA]. hasDoi ''101a'' a) \<and> hasDoi ''101a'' ex_doiA'" by code_simp
  from same_doi_collapse [of "''101a''" "[ex_doiA, ex_doiA']" "[ex_doiA]" ex_doiA' ex_doiA] h1 h2 h3
  show ?thesis by blast
qed

text \<open>
  Claim C2 as stated fails. The DOIs of \<open>ex_blank1\<close> and \<open>ex_blank2\<close> are non-empty and
  have the same normalized form, but they are blank, so the Tier-1 test sends both
  records to Tier 2, which keeps both. The records \<open>ex_doiA\<close> and \<open>ex_doiA'\<close> have the same
  normalized DOI; \<open>ex_doiB\<close> has another DOI and the PMID of \<open>ex_doiA\<close>, and after it no
  record with the shared DOI is left in the accepted map.
\<close>

theorem same_doi_counterexample:
  "doi ex_blank1 = Some '' '' \<and> doi ex_blank2 = Some ''  '' \<and>
   normalizeString '' '' = normalizeString ''  '' \<and>
   deduplicateArticles [ex_blank1, ex_blank2] = [ex_blank1, ex_blank2] \<and>
   hasDoi ''101a'' ex_doiA \<and> hasDoi ''101a'' ex_doiA' \<and>
   deduplicateArticles [ex_doiA, ex_doiA', ex_doiB] = [ex_doiB] \<and>
   filter (hasDoi ''101a'') (deduplicateArticles [ex_doiA, ex_doiA', ex_doiB]) = []"
  by code_simp

text \<open>
  Claim C3, as amended. A record whose \<open>doi\<close> is present and not blank, and whose
  normalized DOI differs from that of every record before it, is accepted when it is seen,
  whatever its title, authors and year: it is in the output of the input cut off after
  it. When DOI-bearing records that share a PMID share their normalized DOI, it is in the
  output of the whole input; so two records with different normalized DOIs are both
  represented.
\<close>

theorem new_doi_accepted:
  "(hasDoi d b \<and> (\<forall>a \<in> set pre. \<not> hasDoi d a) \<longrightarrow>
      b \<in> set (deduplicateArticles (pre @ [b]))) \<and>
   (hasDoi d b \<and> (\<forall>a \<in> set pre. \<not> hasDoi d a) \<and> pmidDeterminesDoi (pre @ b # post) \<longrightarrow>
      b \<in> set (deduplicateArticles (pre @ b # post)))"
proof (intro conjI impI)
  assume "hasDoi d b \<and> (\<forall>a \<in> set pre. \<not> hasDoi d a)"
  then show "b \<in> set (deduplicateArticles (pre @ [b]))"
    using new_doi_stored by blast
next
  assume a: "hasDoi d b \<and> (\<forall>a \<in> set pre. \<not> hasDoi d a) \<and> pmidDeterminesDoi (pre @ b # post)"
  then have "find (hasDoi d) pre = None"
    by (simp add: find_None_iff)
  with a have "find (hasDoi d) (pre @ b # post) = Some b"
    by (simp add: find_append)
  with a show "b \<in> set (deduplicateArticles (pre @ b # post))"
    using first_doi_in_output by blast
qed

text \<open>The amended claim on a record with a new DOI between two others.\<close>

theorem new_doi_accepted_witness:
  "hasDoi ''102b'' ex_doiC \<and> list_all (\<lambda>a. \<not> hasDoi ''102b'' a) [ex_doiA] \<and>
   pmidDeterminesDoi ([ex_doiA] @ ex_doiC # [ex_doiA']) \<and>
   ex_doiC \<in> set (deduplicateArticles ([ex_doiA] @ [ex_doiC])) \<and>
   ex_doiC \<in> set (deduplicateArticles ([ex_doiA] @ ex_doiC # [ex_doiA']))"
proof -
  have h1: "hasDoi ''102b'' ex_doiC" by code_simp
  have h2: "\<forall>a \<in> set [ex_doiA]. \<not> hasDoi ''102b'' a" by code_simp
  have h3: "pmidDeterminesDoi ([ex_doiA] @ ex_doiC # [ex_doiA'])" by code_simp
  from new_doi_accepted [of "''102b''" ex_doiC "[ex_doiA]" "[ex_doiA']"] h1 h2 h3
  show ?thesis by (simp add: list_all_iff)
qed

text \<open>
  Claim C3 as stated fails. The DOI of \<open>ex_blank1\<close> is non-empty and no earlier record has
  a DOI, but it is blank: the record goes to Tier 2 and is dropped, since it has the
  title, author and year of \<open>ex_nodoi\<close>. The record \<open>ex_doiA\<close> bears a DOI and nothing
  precedes it; \<open>ex_doiB\<close> bears another DOI and the same PMID, and after it \<open>ex_doiA\<close> is
  not in the accepted map.
\<close>

theorem new_doi_counterexample:
  "doi ex_blank1 = Some '' '' \<and> doi ex_nodoi = None \<and>
   deduplicateArticles [ex_nodoi, ex_blank1] = [ex_nodoi] \<and>
   hasDoi ''101a'' ex_doiA \<and> hasDoi ''102b'' ex_doiB \<and>
   deduplicateArticles [ex_doiA, ex_doiB] = [ex_doiB] \<and> ex_doiA \<noteq> ex_doiB"
  by code_simp

section \<open>Extraction: one record per block with an identifier\<close>

lemma parseLoop_concat:
  "parseLoop body acc bs = acc @ concat (map (kept body) bs)"
  by (induction bs arbitrary: acc) (simp_all add: kept_def split: sum.splits option.splits)

lemma kept_parseBlock:
  "kept (\<lambda>b. Inr (parseBlock b)) b = (case parseBlock b of Some a \<Rightarrow> [a] | None \<Rightarrow> [])"
  by (simp add: kept_def split: option.splits)

lemma parseBlock_None_iff: "parseBlock b = None \<longleftrightarrow> \<not> validId b"
  by (simp add: parseBlock_def validId_def Let_def split: option.splits)

lemma parseBlock_pmid: "parseBlock b = Some a \<Longrightarrow> pmidOf b = Some (pmid a) \<and> pmid a \<noteq> []"
  by (auto simp: parseBlock_def Let_def split: option.splits if_splits)

lemma concat_kept_filter:
  "map Some (concat (map (kept (\<lambda>b. Inr (parseBlock b))) bs)) = map parseBlock (filter validId bs)"
proof (induction bs)
  case Nil
  show ?case by simp
next
  case (Cons b bs)
  show ?case
  proof (cases "parseBlock b")
    case None
    then have "\<not> validId b" by (simp add: parseBlock_None_iff)
    with None Cons.IH show ?thesis by (simp add: kept_parseBlock)
  next
    case (Some a)
    then have "validId b" using parseBlock_None_iff [of b] by simp
    with Some Cons.IH show ?thesis by (simp add: kept_parseBlock)
  qed
qed

lemma parseArticles_blocks:
  "map Some (parseArticles xml) = map parseBlock (filter validId (articleBlocks xml))"
  by (simp add: parseArticles_def parseLoop_concat concat_kept_filter)

text \<open>What the matcher finds for a literal, for a lazy star and for the pattern of a block.\<close>

lemma ciEq_length: "ciEq u l \<Longrightarrow> length u = length l"
  unfolding ciEq_def by (metis length_map)

lemma litMatches_append: "ciEq u l \<Longrightarrow> litMatches l (u @ v)"
proof (induction l arbitrary: u)
  case Nil
  show ?case by simp
next
  case (Cons c cs)
  then obtain x xs where u: "u = x # xs" by (cases u) (auto simp: ciEq_def)
  with Cons.prems have "toLowerChar x = toLowerChar c" and "ciEq xs cs"
    by (simp_all add: ciEq_def)
  with Cons.IH [of xs] show ?case by (simp add: u)
qed

lemma litMatches_take: "litMatches l s \<Longrightarrow> ciEq (take (length l) s) l"
  by (induction l s rule: litMatches.induct) (auto simp: ciEq_def split: if_splits)

lemma litMatches_startsCI: "litMatches l s = startsCI l s"
proof
  assume "litMatches l s"
  from litMatches_take [OF this] have "s = take (length l) s @ drop (length l) s \<and> ciEq (take (length l) s) l"
    by simp
  then show "startsCI l s" unfolding startsCI_def by blast
next
  assume "startsCI l s"
  then show "litMatches l s" by (auto simp: startsCI_def litMatches_append)
qed

lemma startsCI_drop: "s = u @ v \<Longrightarrow> ciEq u l \<Longrightarrow> drop (length l) s = v"
  using ciEq_length [of u l] by simp

lemma startsCI_appendI: "startsCI l s \<Longrightarrow> startsCI l (s @ t)"
  unfolding startsCI_def by (metis append.assoc)

lemma rmatch_lazy_any:
  "rmatch (Lazy AnyChar # ps) s = Some r \<longleftrightarrow>
   (\<exists>u v. s = u @ v \<and> rmatch ps v = Some r \<and>
      (\<forall>u1 v1. s = u1 @ v1 \<and> length u1 < length u \<longrightarrow> rmatch ps v1 = None))"
proof (induction s)
  case Nil
  show ?case by simp
next
  case (Cons x xs)
  show ?case
  proof (cases "rmatch ps (x # xs)")
    case (Some r')
    have "(\<exists>u v. x # xs = u @ v \<and> rmatch ps v = Some r \<and>
      (\<forall>u1 v1. x # xs = u1 @ v1 \<and> length u1 < length u \<longrightarrow> rmatch ps v1 = None)) \<longleftrightarrow> r' = r"
    proof
      assume "\<exists>u v. x # xs = u @ v \<and> rmatch ps v = Some r \<and>
        (\<forall>u1 v1. x # xs = u1 @ v1 \<and> length u1 < length u \<longrightarrow> rmatch ps v1 = None)"
      then obtain u v where uv: "x # xs = u @ v" and m: "rmatch ps v = Some r"
        and least: "\<forall>u1 v1. x # xs = u1 @ v1 \<and> length u1 < length u \<longrightarrow> rmatch ps v1 = None"
        by blast
      have "u = []"
      proof (rule ccontr)
        assume "u \<noteq> []"
        then have "x # xs = [] @ (x # xs) \<and> length ([]::string) < length u" by simp
        with least have "rmatch ps (x # xs) = None" by blast
        with Some show False by simp
      qed
      with uv m Some show "r' = r" by simp
    next
      assume "r' = r"
      with Some have "x # xs = [] @ (x # xs) \<and> rmatch ps (x # xs) = Some r \<and>
        (\<forall>u1 v1. x # xs = u1 @ v1 \<and> length u1 < length ([]::string) \<longrightarrow> rmatch ps v1 = None)"
        by simp
      then show "\<exists>u v. x # xs = u @ v \<and> rmatch ps v = Some r \<and>
        (\<forall>u1 v1. x # xs = u1 @ v1 \<and> length u1 < length u \<longrightarrow> rmatch ps v1 = None)"
        by blast
    qed
    with Some show ?thesis by auto
  next
    case None
    have "(\<exists>u v. x # xs = u @ v \<and> rmatch ps v = Some r \<and>
      (\<forall>u1 v1. x # xs = u1 @ v1 \<and> length u1 < length u \<longrightarrow> rmatch ps v1 = None)) \<longleftrightarrow>
      (\<exists>u v. xs = u @ v \<and> rmatch ps v = Some r \<and>
      (\<forall>u1 v1. xs = u1 @ v1 \<and> length u1 < length u \<longrightarrow> rmatch ps v1 = None))"
    proof
      assume "\<exists>u v. x # xs = u @ v \<and> rmatch ps v = Some r \<and>
        (\<forall>u1 v1. x # xs = u1 @ v1 \<and> length u1 < length u \<longrightarrow> rmatch ps v1 = None)"
      then obtain u v where uv: "x # xs = u @ v" and m: "rmatch ps v = Some r"
        and least: "\<forall>u1 v1. x # xs = u1 @ v1 \<and> length u1 < length u \<longrightarrow> rmatch ps v1 = None"
        by blast
      from uv m None obtain u' where u: "u = x # u'" by (cases u) auto
      with uv have xs: "xs = u' @ v" by simp
      have "\<forall>u1 v1. xs = u1 @ v1 \<and> length u1 < length u' \<longrightarrow> rmatch ps v1 = None"
      proof (intro allI impI)
        fix u1 v1 assume "xs = u1 @ v1 \<and> length u1 < length u'"
        then have "x # xs = (x # u1) @ v1 \<and> length (x # u1) < length u" by (simp add: u)
        with least show "rmatch ps v1 = None" by blast
      qed
      with xs m show "\<exists>u v. xs = u @ v \<and> rmatch ps v = Some r \<and>
        (\<forall>u1 v1. xs = u1 @ v1 \<and> length u1 < length u \<longrightarrow> rmatch ps v1 = None)" by blast
    next
      assume "\<exists>u v. xs = u @ v \<and> rmatch ps v = Some r \<and>
        (\<forall>u1 v1. xs = u1 @ v1 \<and> length u1 < length u \<longrightarrow> rmatch ps v1 = None)"
      then obtain u v where uv: "xs = u @ v" and m: "rmatch ps v = Some r"
        and least: "\<forall>u1 v1. xs = u1 @ v1 \<and> length u1 < length u \<longrightarrow> rmatch ps v1 = None"
        by blast
      have "\<forall>u1 v1. x # xs = u1 @ v1 \<and> length u1 < length (x # u) \<longrightarrow> rmatch ps v1 = None"
      proof (intro allI impI)
        fix u1 v1 assume a: "x # xs = u1 @ v1 \<and> length u1 < length (x # u)"
        show "rmatch ps v1 = None"
        proof (cases u1)
          case Nil
          with a None show ?thesis by simp
        next
          case (Cons y u1')
          with a have "xs = u1' @ v1 \<and> length u1' < length u" by simp
          with least show ?thesis by blast
        qed
      qed
      moreover have "x # xs = (x # u) @ v" by (simp add: uv)
      ultimately show "\<exists>u v. x # xs = u @ v \<and> rmatch ps v = Some r \<and>
        (\<forall>u1 v1. x # xs = u1 @ v1 \<and> length u1 < length u \<longrightarrow> rmatch ps v1 = None)"
        using m by blast
    qed
    with None Cons.IH show ?thesis by simp
  qed
qed


lemma append_eq_prefix: "xs @ ys = zs @ ts \<Longrightarrow> length zs \<le> length xs \<Longrightarrow> \<exists>us. xs = zs @ us"
proof -
  assume eq: "xs @ ys = zs @ ts" and len: "length zs \<le> length xs"
  from eq have "take (length zs) (xs @ ys) = zs" by simp
  with len have "take (length zs) xs = zs" by simp
  then have "xs = zs @ drop (length zs) xs" by (metis append_take_drop_id)
  then show ?thesis by blast
qed

lemma rmatch_lit_lazy_lit:
  "rmatch [Lit a, Lazy AnyChar, Lit c] t = Some (caps, rest) \<longleftrightarrow>
   caps = [] \<and>
   (\<exists>ot body ct. t = ot @ body @ ct @ rest \<and> ciEq ot a \<and> ciEq ct c \<and>
      (\<forall>u v. body @ ct = u @ v \<and> length u < length body \<longrightarrow> \<not> startsCI c v))"
proof
  assume m: "rmatch [Lit a, Lazy AnyChar, Lit c] t = Some (caps, rest)"
  then have la: "litMatches a t" and m2: "rmatch [Lazy AnyChar, Lit c] (drop (length a) t) = Some (caps, rest)"
    by (simp_all split: if_splits)
  from la obtain ot t' where t: "t = ot @ t'" and ot: "ciEq ot a"
    by (auto simp: litMatches_startsCI startsCI_def)
  from startsCI_drop [OF t ot] have d: "drop (length a) t = t'" .
  from m2 [unfolded d rmatch_lazy_any] obtain u v where
    t': "t' = u @ v" and mv: "rmatch [Lit c] v = Some (caps, rest)"
    and least: "\<forall>u1 v1. t' = u1 @ v1 \<and> length u1 < length u \<longrightarrow> rmatch [Lit c] v1 = None"
    by blast
  from mv have sc: "startsCI c v" and caps: "caps = []" and rest: "rest = drop (length c) v"
    by (simp_all add: litMatches_startsCI split: if_splits)
  from sc obtain ct r where v: "v = ct @ r" and ct: "ciEq ct c" by (auto simp: startsCI_def)
  from startsCI_drop [OF v ct] rest have r: "r = rest" by simp
  have "\<forall>u1 v1. u @ ct = u1 @ v1 \<and> length u1 < length u \<longrightarrow> \<not> startsCI c v1"
  proof (intro allI impI notI)
    fix u1 v1 assume a: "u @ ct = u1 @ v1 \<and> length u1 < length u" and s: "startsCI c v1"
    from a have "t' = u1 @ (v1 @ rest)" by (simp add: t' v r)
    with a least have "rmatch [Lit c] (v1 @ rest) = None" by blast
    with startsCI_appendI [OF s, of rest] show False by (simp add: litMatches_startsCI)
  qed
  moreover have "t = ot @ u @ ct @ rest" by (simp add: t t' v r)
  ultimately show "caps = [] \<and>
   (\<exists>ot body ct. t = ot @ body @ ct @ rest \<and> ciEq ot a \<and> ciEq ct c \<and>
      (\<forall>u v. body @ ct = u @ v \<and> length u < length body \<longrightarrow> \<not> startsCI c v))"
    using caps ot ct by blast
next
  assume "caps = [] \<and>
   (\<exists>ot body ct. t = ot @ body @ ct @ rest \<and> ciEq ot a \<and> ciEq ct c \<and>
      (\<forall>u v. body @ ct = u @ v \<and> length u < length body \<longrightarrow> \<not> startsCI c v))"
  then obtain ot body ct where caps: "caps = []" and t: "t = ot @ body @ ct @ rest"
    and ot: "ciEq ot a" and ct: "ciEq ct c"
    and least: "\<forall>u v. body @ ct = u @ v \<and> length u < length body \<longrightarrow> \<not> startsCI c v"
    by blast
  have la: "litMatches a t" unfolding t by (rule litMatches_append [OF ot])
  from startsCI_drop [OF t ot] have d: "drop (length a) t = body @ ct @ rest" .
  have sc: "startsCI c (ct @ rest)" using ct unfolding startsCI_def by blast
  have mv: "rmatch [Lit c] (ct @ rest) = Some (caps, rest)"
    using sc startsCI_drop [OF refl ct, of rest] by (simp add: litMatches_startsCI caps)
  have "\<forall>u1 v1. body @ ct @ rest = u1 @ v1 \<and> length u1 < length body \<longrightarrow> rmatch [Lit c] v1 = None"
  proof (intro allI impI)
    fix u1 v1 assume a: "body @ ct @ rest = u1 @ v1 \<and> length u1 < length body"
    show "rmatch [Lit c] v1 = None"
    proof (rule ccontr)
      assume "rmatch [Lit c] v1 \<noteq> None"
      then have "startsCI c v1" by (simp add: litMatches_startsCI split: if_splits)
      then obtain c1 r1 where v1: "v1 = c1 @ r1" and c1: "ciEq c1 c" by (auto simp: startsCI_def)
      from ciEq_length [OF c1] ciEq_length [OF ct] have "length c1 = length ct" by simp
      with a have len: "length (u1 @ c1) \<le> length (body @ ct)" by simp
      from a have "(body @ ct) @ rest = (u1 @ c1) @ r1" by (simp add: v1)
      from append_eq_prefix [OF this len] obtain w where "body @ ct = (u1 @ c1) @ w" by blast
      then have e: "body @ ct = u1 @ (c1 @ w)" by simp
      have "startsCI c (c1 @ w)" using c1 unfolding startsCI_def by blast
      with e a least show False by blast
    qed
  qed
  with mv have "rmatch [Lazy AnyChar, Lit c] (body @ ct @ rest) = Some (caps, rest)"
    unfolding rmatch_lazy_any by blast
  with la d show "rmatch [Lit a, Lazy AnyChar, Lit c] t = Some (caps, rest)"
    by simp
qed

lemma rmatch_articlePattern:
  "rmatch articlePattern t = Some (caps, rest) \<longleftrightarrow> caps = [] \<and> (\<exists>b. t = b @ rest \<and> isBlock b)"
proof -
  have "(\<exists>b. t = b @ rest \<and> isBlock b) \<longleftrightarrow>
    (\<exists>ot body ct. t = ot @ body @ ct @ rest \<and> ciEq ot ''<PubmedArticle>'' \<and> ciEq ct ''</PubmedArticle>'' \<and>
      (\<forall>u v. body @ ct = u @ v \<and> length u < length body \<longrightarrow> \<not> startsCI ''</PubmedArticle>'' v))"
    unfolding isBlock_def
  proof
    assume "\<exists>b. t = b @ rest \<and>
      (\<exists>ot body ct. b = ot @ body @ ct \<and> ciEq ot ''<PubmedArticle>'' \<and> ciEq ct ''</PubmedArticle>'' \<and>
        (\<forall>u v. body @ ct = u @ v \<and> length u < length body \<longrightarrow> \<not> startsCI ''</PubmedArticle>'' v))"
    then obtain ot body ct where "t = (ot @ body @ ct) @ rest" "ciEq ot ''<PubmedArticle>''"
      "ciEq ct ''</PubmedArticle>''"
      "\<forall>u v. body @ ct = u @ v \<and> length u < length body \<longrightarrow> \<not> startsCI ''</PubmedArticle>'' v"
      by blast
    moreover from this(1) have "t = ot @ body @ ct @ rest" by simp
    ultimately show "\<exists>ot body ct. t = ot @ body @ ct @ rest \<and> ciEq ot ''<PubmedArticle>'' \<and>
      ciEq ct ''</PubmedArticle>'' \<and>
      (\<forall>u v. body @ ct = u @ v \<and> length u < length body \<longrightarrow> \<not> startsCI ''</PubmedArticle>'' v)"
      by blast
  next
    assume "\<exists>ot body ct. t = ot @ body @ ct @ rest \<and> ciEq ot ''<PubmedArticle>'' \<and>
      ciEq ct ''</PubmedArticle>'' \<and>
      (\<forall>u v. body @ ct = u @ v \<and> length u < length body \<longrightarrow> \<not> startsCI ''</PubmedArticle>'' v)"
    then obtain ot body ct where "t = ot @ body @ ct @ rest" "ciEq ot ''<PubmedArticle>''"
      "ciEq ct ''</PubmedArticle>''"
      "\<forall>u v. body @ ct = u @ v \<and> length u < length body \<longrightarrow> \<not> startsCI ''</PubmedArticle>'' v"
      by blast
    moreover from this(1) have "t = (ot @ body @ ct) @ rest" by simp
    ultimately show "\<exists>b. t = b @ rest \<and>
      (\<exists>ot body ct. b = ot @ body @ ct \<and> ciEq ot ''<PubmedArticle>'' \<and> ciEq ct ''</PubmedArticle>'' \<and>
        (\<forall>u v. body @ ct = u @ v \<and> length u < length body \<longrightarrow> \<not> startsCI ''</PubmedArticle>'' v))"
      by blast
  qed
  then show ?thesis
    unfolding articlePattern_def rmatch_lit_lazy_lit by simp
qed

lemma rmatch_articlePattern_None: "rmatch articlePattern t = None \<longleftrightarrow> \<not> blockStart t"
proof
  assume n: "rmatch articlePattern t = None"
  show "\<not> blockStart t"
  proof
    assume "blockStart t"
    then obtain b rest where "t = b @ rest" "isBlock b" by (auto simp: blockStart_def)
    then have "rmatch articlePattern t = Some ([], rest)"
      using rmatch_articlePattern [of t "[]" rest] by blast
    with n show False by simp
  qed
next
  assume nb: "\<not> blockStart t"
  show "rmatch articlePattern t = None"
  proof (cases "rmatch articlePattern t")
    case None
    then show ?thesis .
  next
    case (Some r)
    obtain caps rest where "r = (caps, rest)" by (cases r)
    with Some rmatch_articlePattern [of t caps rest] have "\<exists>b. t = b @ rest \<and> isBlock b" by simp
    with nb show ?thesis by (auto simp: blockStart_def)
  qed
qed

lemma isBlock_nonempty: "isBlock b \<Longrightarrow> b \<noteq> []"
proof -
  assume "isBlock b"
  then obtain ot body ct where b: "b = ot @ body @ ct" and "ciEq ot ''<PubmedArticle>''"
    unfolding isBlock_def by blast
  from ciEq_length [OF this(2)] have "ot \<noteq> []" by auto
  with b show ?thesis by simp
qed

lemma matchAll_skip: "n \<le> length s \<Longrightarrow> matchAll ps n s = matchAll ps 0 (drop n s)"
proof (induction s arbitrary: n)
  case Nil
  then show ?case by simp
next
  case (Cons x xs)
  show ?case
  proof (cases n)
    case 0
    then show ?thesis by simp
  next
    case (Suc k)
    with Cons.prems have "k \<le> length xs" by simp
    from Cons.IH [OF this] show ?thesis by (simp add: Suc)
  qed
qed

lemma articleBlocks_Nil: "articleBlocks [] = []"
  by (simp add: articleBlocks_def articlePattern_def)

lemma articleBlocks_step_none:
  assumes "\<not> blockStart (x # xs)"
  shows "articleBlocks (x # xs) = articleBlocks xs"
proof -
  from assms have "rmatch articlePattern (x # xs) = None" by (simp add: rmatch_articlePattern_None)
  then show ?thesis by (simp add: articleBlocks_def)
qed

lemma articleBlocks_step_block:
  assumes "isBlock b"
  shows "articleBlocks (b @ rest) = b # articleBlocks rest"
proof -
  from isBlock_nonempty [OF assms] obtain x b' where b: "b = x # b'" by (cases b) auto
  have m: "rmatch articlePattern (x # b' @ rest) = Some ([], rest)"
    using rmatch_articlePattern [of "b @ rest" "[]" rest] assms by (auto simp: b)
  have "matchAll articlePattern (length b') (b' @ rest) = matchAll articlePattern 0 rest"
    using matchAll_skip [of "length b'" "b' @ rest" articlePattern] by simp
  with m show ?thesis by (simp add: articleBlocks_def b Let_def)
qed

lemma blocksOf_gap:
  assumes "\<not> blockStart (x # xs)" and "blocksOf xs bs"
  shows "blocksOf (x # xs) bs"
proof (cases bs)
  case Nil
  have "\<forall>u v. x # xs = u @ v \<longrightarrow> \<not> blockStart v"
  proof (intro allI impI)
    fix u v assume e: "x # xs = u @ v"
    show "\<not> blockStart v"
    proof (cases u)
      case Nil
      with e assms(1) show ?thesis by simp
    next
      case (Cons y u')
      with e have "xs = u' @ v" by simp
      with assms(2) \<open>bs = []\<close> show ?thesis by simp
    qed
  qed
  with Nil show ?thesis by simp
next
  case (Cons b bs')
  with assms(2) obtain g rest where xs: "xs = g @ b @ rest"
    and lm: "\<forall>u v. g = u @ v \<and> v \<noteq> [] \<longrightarrow> \<not> blockStart (v @ b @ rest)"
    and ib: "isBlock b" and r: "blocksOf rest bs'" by auto
  have "\<forall>u v. x # g = u @ v \<and> v \<noteq> [] \<longrightarrow> \<not> blockStart (v @ b @ rest)"
  proof (intro allI impI)
    fix u v assume e: "x # g = u @ v \<and> v \<noteq> []"
    show "\<not> blockStart (v @ b @ rest)"
    proof (cases u)
      case Nil
      with e assms(1) xs show ?thesis by auto
    next
      case (Cons y u')
      with e have "g = u' @ v \<and> v \<noteq> []" by simp
      with lm show ?thesis by blast
    qed
  qed
  moreover have "x # xs = (x # g) @ b @ rest" by (simp add: xs)
  ultimately have "\<exists>g rest. x # xs = g @ b @ rest \<and>
      (\<forall>u v. g = u @ v \<and> v \<noteq> [] \<longrightarrow> \<not> blockStart (v @ b @ rest)) \<and> isBlock b \<and> blocksOf rest bs'"
    using ib r by blast
  with Cons show ?thesis by simp
qed

lemma blocksOf_articleBlocks: "blocksOf s (articleBlocks s)"
proof (induction s rule: length_induct)
  case (1 s)
  show ?case
  proof (cases s)
    case Nil
    have "\<forall>u v. ([]::string) = u @ v \<longrightarrow> \<not> blockStart v"
      using rmatch_articlePattern_None [of "[]"] by (simp add: articlePattern_def)
    with Nil show ?thesis by (simp add: articleBlocks_Nil)
  next
    case (Cons x xs)
    show ?thesis
    proof (cases "blockStart (x # xs)")
      case False
      from 1 Cons have "blocksOf xs (articleBlocks xs)" by simp
      from blocksOf_gap [OF False this] False show ?thesis
        by (simp add: Cons articleBlocks_step_none)
    next
      case True
      then obtain b rest where e: "x # xs = b @ rest" and ib: "isBlock b"
        by (auto simp: blockStart_def)
      from isBlock_nonempty [OF ib] e have "length rest < length s"
        using arg_cong [OF e, of length] by (simp add: Cons)
      with 1 have r: "blocksOf rest (articleBlocks rest)" by blast
      have "x # xs = [] @ b @ rest \<and>
        (\<forall>u v. ([]::string) = u @ v \<and> v \<noteq> [] \<longrightarrow> \<not> blockStart (v @ b @ rest)) \<and> isBlock b \<and>
        blocksOf rest (articleBlocks rest)"
        using e ib r by simp
      then have "blocksOf (x # xs) (b # articleBlocks rest)"
        unfolding blocksOf.simps by blast
      then show ?thesis
        unfolding Cons e articleBlocks_step_block [OF ib] .
    qed
  qed
qed

lemma articleBlocks_no_block:
  "(\<forall>u v. s = u @ v \<longrightarrow> \<not> blockStart v) \<Longrightarrow> articleBlocks s = []"
proof (induction s)
  case Nil
  show ?case by (rule articleBlocks_Nil)
next
  case (Cons x xs)
  from Cons.prems have "\<not> blockStart (x # xs)" by (metis append_Nil)
  moreover have "\<forall>u v. xs = u @ v \<longrightarrow> \<not> blockStart v"
  proof (intro allI impI)
    fix u v assume "xs = u @ v"
    then have "x # xs = (x # u) @ v" by simp
    with Cons.prems show "\<not> blockStart v" by blast
  qed
  ultimately show ?case using Cons.IH by (simp add: articleBlocks_step_none)
qed

lemma articleBlocks_skip_gap:
  "(\<forall>u v. g = u @ v \<and> v \<noteq> [] \<longrightarrow> \<not> blockStart (v @ t)) \<Longrightarrow> articleBlocks (g @ t) = articleBlocks t"
proof (induction g)
  case Nil
  show ?case by simp
next
  case (Cons x g)
  from Cons.prems have "\<not> blockStart ((x # g) @ t)" by (metis append_Nil list.distinct(1))
  then have a: "articleBlocks ((x # g) @ t) = articleBlocks (g @ t)"
    using articleBlocks_step_none [of x "g @ t"] by simp
  have "\<forall>u v. g = u @ v \<and> v \<noteq> [] \<longrightarrow> \<not> blockStart (v @ t)"
  proof (intro allI impI)
    fix u v assume "g = u @ v \<and> v \<noteq> []"
    then have "x # g = (x # u) @ v \<and> v \<noteq> []" by simp
    with Cons.prems show "\<not> blockStart (v @ t)" by blast
  qed
  from Cons.IH [OF this] a show ?case by simp
qed

lemma blocksOf_unique: "blocksOf s bs \<Longrightarrow> bs = articleBlocks s"
proof (induction bs arbitrary: s)
  case Nil
  then show ?case using articleBlocks_no_block [of s] by simp
next
  case (Cons b bs)
  from Cons.prems obtain g rest where s: "s = g @ b @ rest"
    and lm: "\<forall>u v. g = u @ v \<and> v \<noteq> [] \<longrightarrow> \<not> blockStart (v @ b @ rest)"
    and ib: "isBlock b" and r: "blocksOf rest bs" by auto
  from articleBlocks_skip_gap [OF lm] have "articleBlocks s = articleBlocks (b @ rest)"
    by (simp add: s)
  also have "\<dots> = b # articleBlocks rest" by (rule articleBlocks_step_block [OF ib])
  also from Cons.IH [OF r] have "articleBlocks rest = bs" by simp
  finally show ?case by simp
qed


text \<open>What the matcher finds for the pattern of an identifier element.\<close>

lemma code_toLowerChar_gt: "code (toLowerChar x) = 62 \<longleftrightarrow> code x = 62"
  by (auto simp: toLowerChar_def code_def)

lemma toLowerChar_gt: "toLowerChar x = CHR ''>'' \<longleftrightarrow> x = CHR ''>''"
proof -
  have c: "code (CHR ''>'') = 62" by (simp add: code_def)
  show ?thesis
  proof
    assume "toLowerChar x = CHR ''>''"
    then have "code (toLowerChar x) = 62" by (simp add: c)
    then have "code x = code (CHR ''>'')" by (simp add: code_toLowerChar_gt c)
    then show "x = CHR ''>''" by (rule code_inj)
  next
    assume "x = CHR ''>''"
    then show "toLowerChar x = CHR ''>''" by (simp add: toLowerChar_def code_def)
  qed
qed

lemma rmatch_Lit_iff:
  "rmatch (Lit a # ps) t = Some r \<longleftrightarrow> (\<exists>ot t'. t = ot @ t' \<and> ciEq ot a \<and> rmatch ps t' = Some r)"
proof
  assume m: "rmatch (Lit a # ps) t = Some r"
  then have la: "litMatches a t" and m2: "rmatch ps (drop (length a) t) = Some r"
    by (simp_all split: if_splits)
  from la obtain ot t' where t: "t = ot @ t'" and ot: "ciEq ot a"
    by (auto simp: litMatches_startsCI startsCI_def)
  from startsCI_drop [OF t ot] m2 have "rmatch ps t' = Some r" by simp
  with t ot show "\<exists>ot t'. t = ot @ t' \<and> ciEq ot a \<and> rmatch ps t' = Some r" by blast
next
  assume "\<exists>ot t'. t = ot @ t' \<and> ciEq ot a \<and> rmatch ps t' = Some r"
  then obtain ot t' where t: "t = ot @ t'" and ot: "ciEq ot a" and m: "rmatch ps t' = Some r"
    by blast
  have "litMatches a t" unfolding t by (rule litMatches_append [OF ot])
  with startsCI_drop [OF t ot] m show "rmatch (Lit a # ps) t = Some r" by simp
qed

lemma rmatch_greedy_gt:
  "rmatch (Greedy NotGt # Lit ''>'' # ps) s = Some r \<longleftrightarrow>
   (\<exists>attrs t. s = attrs @ CHR ''>'' # t \<and> CHR ''>'' \<notin> set attrs \<and> rmatch ps t = Some r)"
proof (induction s)
  case Nil
  show ?case by simp
next
  case (Cons x xs)
  show ?case
  proof (cases "x = CHR ''>''")
    case True
    have l: "rmatch (Greedy NotGt # Lit ''>'' # ps) (x # xs) = rmatch ps xs"
      by (simp add: True)
    have "(\<exists>attrs t. x # xs = attrs @ CHR ''>'' # t \<and> CHR ''>'' \<notin> set attrs \<and> rmatch ps t = Some r) \<longleftrightarrow>
      rmatch ps xs = Some r"
    proof
      assume "\<exists>attrs t. x # xs = attrs @ CHR ''>'' # t \<and> CHR ''>'' \<notin> set attrs \<and> rmatch ps t = Some r"
      then obtain attrs t where e: "x # xs = attrs @ CHR ''>'' # t" and n: "CHR ''>'' \<notin> set attrs"
        and m: "rmatch ps t = Some r" by blast
      from e n True have "attrs = []" by (cases attrs) auto
      with e m show "rmatch ps xs = Some r" by simp
    next
      assume "rmatch ps xs = Some r"
      then have "x # xs = [] @ CHR ''>'' # xs \<and> CHR ''>'' \<notin> set ([]::string) \<and> rmatch ps xs = Some r"
        by (simp add: True)
      then show "\<exists>attrs t. x # xs = attrs @ CHR ''>'' # t \<and> CHR ''>'' \<notin> set attrs \<and> rmatch ps t = Some r"
        by blast
    qed
    with l show ?thesis by simp
  next
    case False
    then have "toLowerChar (CHR ''>'') \<noteq> toLowerChar x"
      using toLowerChar_gt [of x] toLowerChar_gt [of "CHR ''>''"] by auto
    then have n: "rmatch (Lit ''>'' # ps) (x # xs) = None" by simp
    have l: "rmatch (Greedy NotGt # Lit ''>'' # ps) (x # xs) = rmatch (Greedy NotGt # Lit ''>'' # ps) xs"
      using False n by (simp split: option.splits)
    have "(\<exists>attrs t. x # xs = attrs @ CHR ''>'' # t \<and> CHR ''>'' \<notin> set attrs \<and> rmatch ps t = Some r) \<longleftrightarrow>
      (\<exists>attrs t. xs = attrs @ CHR ''>'' # t \<and> CHR ''>'' \<notin> set attrs \<and> rmatch ps t = Some r)"
    proof
      assume "\<exists>attrs t. x # xs = attrs @ CHR ''>'' # t \<and> CHR ''>'' \<notin> set attrs \<and> rmatch ps t = Some r"
      then obtain attrs t where e: "x # xs = attrs @ CHR ''>'' # t" and na: "CHR ''>'' \<notin> set attrs"
        and m: "rmatch ps t = Some r" by blast
      from e False obtain a' where a: "attrs = x # a'" by (cases attrs) auto
      with e na have "xs = a' @ CHR ''>'' # t \<and> CHR ''>'' \<notin> set a'" by simp
      with m show "\<exists>attrs t. xs = attrs @ CHR ''>'' # t \<and> CHR ''>'' \<notin> set attrs \<and> rmatch ps t = Some r"
        by blast
    next
      assume "\<exists>attrs t. xs = attrs @ CHR ''>'' # t \<and> CHR ''>'' \<notin> set attrs \<and> rmatch ps t = Some r"
      then obtain attrs t where e: "xs = attrs @ CHR ''>'' # t" and na: "CHR ''>'' \<notin> set attrs"
        and m: "rmatch ps t = Some r" by blast
      from e na False have "x # xs = (x # attrs) @ CHR ''>'' # t \<and> CHR ''>'' \<notin> set (x # attrs)"
        by auto
      with m show "\<exists>attrs t. x # xs = attrs @ CHR ''>'' # t \<and> CHR ''>'' \<notin> set attrs \<and> rmatch ps t = Some r"
        by blast
    qed
    with l Cons.IH show ?thesis by simp
  qed
qed


lemma rmatch_lazycap:
  "rmatch (LazyCap cl # ps) s = Some (caps, rest) \<longleftrightarrow>
   (\<exists>p v caps'. caps = p # caps' \<and> s = p @ v \<and> (\<forall>x \<in> set p. inClass cl x) \<and>
      rmatch ps v = Some (caps', rest) \<and>
      (\<forall>u1 v1. s = u1 @ v1 \<and> length u1 < length p \<longrightarrow> rmatch ps v1 = None))"
proof (induction s arbitrary: caps)
  case Nil
  show ?case by (auto split: option.splits)
next
  case (Cons x xs)
  let ?R = "\<lambda>s caps. \<exists>p v caps'. caps = p # caps' \<and> s = p @ v \<and> (\<forall>x \<in> set p. inClass cl x) \<and>
      rmatch ps v = Some (caps', rest) \<and>
      (\<forall>u1 v1. s = u1 @ v1 \<and> length u1 < length p \<longrightarrow> rmatch ps v1 = None)"
  show ?case
  proof (cases "rmatch ps (x # xs)")
    case (Some r')
    obtain caps0 rest0 where r': "r' = (caps0, rest0)" by (cases r')
    have l: "rmatch (LazyCap cl # ps) (x # xs) = Some ([] # caps0, rest0)"
      by (simp add: Some r')
    have "?R (x # xs) caps \<longleftrightarrow> caps = [] # caps0 \<and> rest = rest0"
    proof
      assume "?R (x # xs) caps"
      then obtain p v caps' where c: "caps = p # caps'" and e: "x # xs = p @ v"
        and m: "rmatch ps v = Some (caps', rest)"
        and least: "\<forall>u1 v1. x # xs = u1 @ v1 \<and> length u1 < length p \<longrightarrow> rmatch ps v1 = None"
        by blast
      have "p = []"
      proof (rule ccontr)
        assume "p \<noteq> []"
        then have "x # xs = [] @ (x # xs) \<and> length ([]::string) < length p" by simp
        with least have "rmatch ps (x # xs) = None" by blast
        with Some show False by simp
      qed
      with c e m Some r' show "caps = [] # caps0 \<and> rest = rest0" by simp
    next
      assume a: "caps = [] # caps0 \<and> rest = rest0"
      with Some r' have "caps = [] # caps0 \<and> x # xs = [] @ (x # xs) \<and>
        (\<forall>x \<in> set ([]::string). inClass cl x) \<and> rmatch ps (x # xs) = Some (caps0, rest) \<and>
        (\<forall>u1 v1. x # xs = u1 @ v1 \<and> length u1 < length ([]::string) \<longrightarrow> rmatch ps v1 = None)"
        by simp
      then show "?R (x # xs) caps" by blast
    qed
    with l show ?thesis by auto
  next
    case None
    show ?thesis
    proof (cases "inClass cl x")
      case False
      have l: "rmatch (LazyCap cl # ps) (x # xs) = None"
        by (simp add: None False)
      have "\<not> ?R (x # xs) caps"
      proof
        assume "?R (x # xs) caps"
        then obtain p v caps' where e: "x # xs = p @ v" and cl: "\<forall>x \<in> set p. inClass cl x"
          and m: "rmatch ps v = Some (caps', rest)" by blast
        from e m None obtain p' where "p = x # p'" by (cases p) auto
        with cl False show False by simp
      qed
      with l show ?thesis by simp
    next
      case True
      have l: "rmatch (LazyCap cl # ps) (x # xs) = Some (caps, rest) \<longleftrightarrow>
        (\<exists>cap caps1. rmatch (LazyCap cl # ps) xs = Some (cap # caps1, rest) \<and> caps = (x # cap) # caps1)"
        by (auto simp: None True split: option.splits list.splits)
      have "?R (x # xs) caps \<longleftrightarrow> (\<exists>cap caps1. ?R xs (cap # caps1) \<and> caps = (x # cap) # caps1)"
      proof
        assume "?R (x # xs) caps"
        then obtain p v caps' where c: "caps = p # caps'" and e: "x # xs = p @ v"
          and cl: "\<forall>x \<in> set p. inClass cl x"
          and m: "rmatch ps v = Some (caps', rest)"
          and least: "\<forall>u1 v1. x # xs = u1 @ v1 \<and> length u1 < length p \<longrightarrow> rmatch ps v1 = None"
          by blast
        from e m None obtain p' where p: "p = x # p'" by (cases p) auto
        with e have xs: "xs = p' @ v" by simp
        from cl p have cl': "\<forall>x \<in> set p'. inClass cl x" by simp
        have least': "\<forall>u1 v1. xs = u1 @ v1 \<and> length u1 < length p' \<longrightarrow> rmatch ps v1 = None"
        proof (intro allI impI)
          fix u1 v1 assume "xs = u1 @ v1 \<and> length u1 < length p'"
          then have "x # xs = (x # u1) @ v1 \<and> length (x # u1) < length p" by (simp add: p)
          with least show "rmatch ps v1 = None" by blast
        qed
        have "?R xs (p' # caps')" using xs cl' m least' by blast
        moreover have "caps = (x # p') # caps'" by (simp add: c p)
        ultimately show "\<exists>cap caps1. ?R xs (cap # caps1) \<and> caps = (x # cap) # caps1" by blast
      next
        assume "\<exists>cap caps1. ?R xs (cap # caps1) \<and> caps = (x # cap) # caps1"
        then obtain cap caps1 p v caps' where c: "caps = (x # cap) # caps1"
          and cc: "cap # caps1 = p # caps'" and xs: "xs = p @ v"
          and cl: "\<forall>x \<in> set p. inClass cl x"
          and m: "rmatch ps v = Some (caps', rest)"
          and least: "\<forall>u1 v1. xs = u1 @ v1 \<and> length u1 < length p \<longrightarrow> rmatch ps v1 = None"
          by blast
        have least': "\<forall>u1 v1. x # xs = u1 @ v1 \<and> length u1 < length (x # p) \<longrightarrow> rmatch ps v1 = None"
        proof (intro allI impI)
          fix u1 v1 assume a: "x # xs = u1 @ v1 \<and> length u1 < length (x # p)"
          show "rmatch ps v1 = None"
          proof (cases u1)
            case Nil
            with a None show ?thesis by simp
          next
            case (Cons y u1')
            with a have "xs = u1' @ v1 \<and> length u1' < length p" by simp
            with least show ?thesis by blast
          qed
        qed
        have "caps = (x # p) # caps' \<and> x # xs = (x # p) @ v \<and> (\<forall>x \<in> set (x # p). inClass cl x)"
          using c cc xs cl True by simp
        with m least' show "?R (x # xs) caps" by blast
      qed
      with l Cons.IH show ?thesis by simp
    qed
  qed
qed


lemma least_closing:
  assumes ct: "ciEq ct c"
  shows "(\<forall>u1 v1. body @ ct @ rest = u1 @ v1 \<and> length u1 < length body \<longrightarrow> rmatch [Lit c] v1 = None) \<longleftrightarrow>
         (\<forall>u v. body @ ct = u @ v \<and> length u < length body \<longrightarrow> \<not> startsCI c v)"
proof
  assume least: "\<forall>u1 v1. body @ ct @ rest = u1 @ v1 \<and> length u1 < length body \<longrightarrow> rmatch [Lit c] v1 = None"
  show "\<forall>u v. body @ ct = u @ v \<and> length u < length body \<longrightarrow> \<not> startsCI c v"
  proof (intro allI impI notI)
    fix u v assume a: "body @ ct = u @ v \<and> length u < length body" and s: "startsCI c v"
    from a have "body @ ct @ rest = u @ (v @ rest)"
      by (metis append.assoc)
    with a least have "rmatch [Lit c] (v @ rest) = None" by blast
    with startsCI_appendI [OF s, of rest] show False by (simp add: litMatches_startsCI)
  qed
next
  assume least: "\<forall>u v. body @ ct = u @ v \<and> length u < length body \<longrightarrow> \<not> startsCI c v"
  show "\<forall>u1 v1. body @ ct @ rest = u1 @ v1 \<and> length u1 < length body \<longrightarrow> rmatch [Lit c] v1 = None"
  proof (intro allI impI)
    fix u1 v1 assume a: "body @ ct @ rest = u1 @ v1 \<and> length u1 < length body"
    show "rmatch [Lit c] v1 = None"
    proof (rule ccontr)
      assume "rmatch [Lit c] v1 \<noteq> None"
      then have "startsCI c v1" by (simp add: litMatches_startsCI split: if_splits)
      then obtain c1 r1 where v1: "v1 = c1 @ r1" and c1: "ciEq c1 c" by (auto simp: startsCI_def)
      from ciEq_length [OF c1] ciEq_length [OF ct] have "length c1 = length ct" by simp
      with a have len: "length (u1 @ c1) \<le> length (body @ ct)" by simp
      from a have "(body @ ct) @ rest = (u1 @ c1) @ r1" by (simp add: v1)
      from append_eq_prefix [OF this len] obtain w where "body @ ct = (u1 @ c1) @ w" by blast
      then have e: "body @ ct = u1 @ (c1 @ w)" by simp
      have "startsCI c (c1 @ w)" using c1 unfolding startsCI_def by blast
      with e a least show False by blast
    qed
  qed
qed

lemma rmatch_closing:
  "rmatch [Lit c] v = Some (caps, rest) \<longleftrightarrow> caps = [] \<and> (\<exists>ct. v = ct @ rest \<and> ciEq ct c)"
  unfolding rmatch_Lit_iff by auto

lemma rmatch_pmidPattern:
  "rmatch pmidPattern t = Some (caps, rest) \<longleftrightarrow>
   (\<exists>ot attrs p ct. caps = [p] \<and> t = ot @ attrs @ CHR ''>'' # p @ ct @ rest \<and> ciEq ot ''<PMID'' \<and>
      CHR ''>'' \<notin> set attrs \<and> (\<forall>x \<in> set p. code x \<noteq> 10 \<and> code x \<noteq> 13) \<and> ciEq ct ''</PMID>'' \<and>
      (\<forall>u v. p @ ct = u @ v \<and> length u < length p \<longrightarrow> \<not> startsCI ''</PMID>'' v))"
proof
  assume "rmatch pmidPattern t = Some (caps, rest)"
  then have "rmatch (Lit ''<PMID'' # Greedy NotGt # Lit ''>'' # [LazyCap Dot, Lit ''</PMID>'']) t = Some (caps, rest)"
    by (simp only: pmidPattern_def)
  then obtain ot t1 where t: "t = ot @ t1" and ot: "ciEq ot ''<PMID''"
    and m1: "rmatch (Greedy NotGt # Lit ''>'' # [LazyCap Dot, Lit ''</PMID>'']) t1 = Some (caps, rest)"
    unfolding rmatch_Lit_iff by blast
  from m1 obtain attrs t2 where t1: "t1 = attrs @ CHR ''>'' # t2" and na: "CHR ''>'' \<notin> set attrs"
    and m2: "rmatch [LazyCap Dot, Lit ''</PMID>''] t2 = Some (caps, rest)"
    unfolding rmatch_greedy_gt by blast
  from m2 obtain p v caps' where c: "caps = p # caps'" and t2: "t2 = p @ v"
    and cl: "\<forall>x \<in> set p. inClass Dot x"
    and m3: "rmatch [Lit ''</PMID>''] v = Some (caps', rest)"
    and least: "\<forall>u1 v1. t2 = u1 @ v1 \<and> length u1 < length p \<longrightarrow> rmatch [Lit ''</PMID>''] v1 = None"
    unfolding rmatch_lazycap by blast
  from m3 obtain ct where c': "caps' = []" and v: "v = ct @ rest" and ct: "ciEq ct ''</PMID>''"
    unfolding rmatch_closing by blast
  from least have "\<forall>u1 v1. p @ ct @ rest = u1 @ v1 \<and> length u1 < length p \<longrightarrow> rmatch [Lit ''</PMID>''] v1 = None"
    by (simp add: t2 v)
  then have min: "\<forall>u v. p @ ct = u @ v \<and> length u < length p \<longrightarrow> \<not> startsCI ''</PMID>'' v"
    by (simp only: least_closing [OF ct])
  have "caps = [p]" by (simp add: c c')
  moreover have "t = ot @ attrs @ CHR ''>'' # p @ ct @ rest" by (simp add: t t1 t2 v)
  moreover from cl have "\<forall>x \<in> set p. code x \<noteq> 10 \<and> code x \<noteq> 13" by simp
  ultimately show "\<exists>ot attrs p ct. caps = [p] \<and> t = ot @ attrs @ CHR ''>'' # p @ ct @ rest \<and> ciEq ot ''<PMID'' \<and>
      CHR ''>'' \<notin> set attrs \<and> (\<forall>x \<in> set p. code x \<noteq> 10 \<and> code x \<noteq> 13) \<and> ciEq ct ''</PMID>'' \<and>
      (\<forall>u v. p @ ct = u @ v \<and> length u < length p \<longrightarrow> \<not> startsCI ''</PMID>'' v)"
    using ot na ct min by blast
next
  assume "\<exists>ot attrs p ct. caps = [p] \<and> t = ot @ attrs @ CHR ''>'' # p @ ct @ rest \<and> ciEq ot ''<PMID'' \<and>
      CHR ''>'' \<notin> set attrs \<and> (\<forall>x \<in> set p. code x \<noteq> 10 \<and> code x \<noteq> 13) \<and> ciEq ct ''</PMID>'' \<and>
      (\<forall>u v. p @ ct = u @ v \<and> length u < length p \<longrightarrow> \<not> startsCI ''</PMID>'' v)"
  then obtain ot attrs p ct where c: "caps = [p]" and t: "t = ot @ attrs @ CHR ''>'' # p @ ct @ rest"
    and ot: "ciEq ot ''<PMID''" and na: "CHR ''>'' \<notin> set attrs"
    and cl: "\<forall>x \<in> set p. code x \<noteq> 10 \<and> code x \<noteq> 13" and ct: "ciEq ct ''</PMID>''"
    and min: "\<forall>u v. p @ ct = u @ v \<and> length u < length p \<longrightarrow> \<not> startsCI ''</PMID>'' v"
    by blast
  have m3: "rmatch [Lit ''</PMID>''] (ct @ rest) = Some ([], rest)"
    unfolding rmatch_closing using ct by blast
  from min have least: "\<forall>u1 v1. p @ ct @ rest = u1 @ v1 \<and> length u1 < length p \<longrightarrow>
      rmatch [Lit ''</PMID>''] v1 = None"
    by (simp only: least_closing [OF ct])
  from cl have cl': "\<forall>x \<in> set p. inClass Dot x" by simp
  have m2: "rmatch [LazyCap Dot, Lit ''</PMID>''] (p @ ct @ rest) = Some (caps, rest)"
    unfolding rmatch_lazycap using c cl' m3 least by blast
  have m1: "rmatch (Greedy NotGt # Lit ''>'' # [LazyCap Dot, Lit ''</PMID>'']) (attrs @ CHR ''>'' # p @ ct @ rest) =
      Some (caps, rest)"
    unfolding rmatch_greedy_gt using na m2 by blast
  have "rmatch (Lit ''<PMID'' # Greedy NotGt # Lit ''>'' # [LazyCap Dot, Lit ''</PMID>'']) t = Some (caps, rest)"
    unfolding rmatch_Lit_iff using t ot m1 by blast
  then show "rmatch pmidPattern t = Some (caps, rest)"
    by (simp only: pmidPattern_def)
qed

lemma pmidAt_rmatch: "pmidAt t p \<longleftrightarrow> (\<exists>rest. rmatch pmidPattern t = Some ([p], rest))"
  unfolding pmidAt_def rmatch_pmidPattern by blast

lemma rmatch_pmidPattern_None: "rmatch pmidPattern t = None \<longleftrightarrow> \<not> (\<exists>q. pmidAt t q)"
proof
  assume "rmatch pmidPattern t = None"
  then show "\<not> (\<exists>q. pmidAt t q)" by (simp add: pmidAt_rmatch)
next
  assume n: "\<not> (\<exists>q. pmidAt t q)"
  show "rmatch pmidPattern t = None"
  proof (cases "rmatch pmidPattern t")
    case None
    then show ?thesis .
  next
    case (Some r)
    obtain caps rest where r: "r = (caps, rest)" by (cases r)
    from Some [unfolded r rmatch_pmidPattern] obtain p where "caps = [p]" by blast
    with Some r have "pmidAt t p" unfolding pmidAt_rmatch by blast
    with n show ?thesis by blast
  qed
qed

lemma firstMatch_leftmost:
  "firstMatch ps s = Some caps \<longleftrightarrow>
   (\<exists>g t rest. s = g @ t \<and> rmatch ps t = Some (caps, rest) \<and>
      (\<forall>u v. g = u @ v \<and> v \<noteq> [] \<longrightarrow> rmatch ps (v @ t) = None))"
proof (induction s)
  case Nil
  show ?case
  proof
    assume "firstMatch ps [] = Some caps"
    then obtain rest where "rmatch ps [] = Some (caps, rest)"
      by (cases "rmatch ps []") auto
    then have f: "[] = [] @ ([]::string) \<and> rmatch ps [] = Some (caps, rest) \<and>
      (\<forall>u v. ([]::string) = u @ v \<and> v \<noteq> [] \<longrightarrow> rmatch ps (v @ []) = None)" by simp
    show "\<exists>g t rest. [] = g @ t \<and> rmatch ps t = Some (caps, rest) \<and>
      (\<forall>u v. g = u @ v \<and> v \<noteq> [] \<longrightarrow> rmatch ps (v @ t) = None)"
      apply (rule exI [of _ "[]"])
      apply (rule exI [of _ "[]"])
      apply (rule exI [of _ rest])
      apply (rule f)
      done
  next
    assume "\<exists>g t rest. [] = g @ t \<and> rmatch ps t = Some (caps, rest) \<and>
      (\<forall>u v. g = u @ v \<and> v \<noteq> [] \<longrightarrow> rmatch ps (v @ t) = None)"
    then obtain g t rest where e: "[] = g @ t" and m: "rmatch ps t = Some (caps, rest)" by blast
    from e have "t = []" by simp
    with m show "firstMatch ps [] = Some caps" by simp
  qed
next
  case (Cons x xs)
  show ?case
  proof (cases "rmatch ps (x # xs)")
    case (Some r)
    obtain caps0 rest0 where r: "r = (caps0, rest0)" by (cases r)
    have l: "firstMatch ps (x # xs) = Some caps0" by (simp add: Some r)
    show ?thesis
    proof
      assume "\<exists>g t rest. x # xs = g @ t \<and> rmatch ps t = Some (caps, rest) \<and>
        (\<forall>u v. g = u @ v \<and> v \<noteq> [] \<longrightarrow> rmatch ps (v @ t) = None)"
      then obtain g t rest where e: "x # xs = g @ t" and m: "rmatch ps t = Some (caps, rest)"
        and lm: "\<forall>u v. g = u @ v \<and> v \<noteq> [] \<longrightarrow> rmatch ps (v @ t) = None" by blast
      have "g = []"
      proof (rule ccontr)
        assume "g \<noteq> []"
        with lm [rule_format, of "[]" g] have "rmatch ps (g @ t) = None" by simp
        with e Some show False by simp
      qed
      with e m Some r have "caps = caps0" by simp
      with l show "firstMatch ps (x # xs) = Some caps" by simp
    next
      assume "firstMatch ps (x # xs) = Some caps"
      with l have "caps = caps0" by simp
      with Some r have f: "x # xs = [] @ (x # xs) \<and> rmatch ps (x # xs) = Some (caps, rest0) \<and>
        (\<forall>u v. ([]::string) = u @ v \<and> v \<noteq> [] \<longrightarrow> rmatch ps (v @ (x # xs)) = None)" by simp
      show "\<exists>g t rest. x # xs = g @ t \<and> rmatch ps t = Some (caps, rest) \<and>
        (\<forall>u v. g = u @ v \<and> v \<noteq> [] \<longrightarrow> rmatch ps (v @ t) = None)"
        apply (rule exI [of _ "[]"])
        apply (rule exI [of _ "x # xs"])
        apply (rule exI [of _ rest0])
        apply (rule f)
        done
    qed
  next
    case None
    have l: "firstMatch ps (x # xs) = firstMatch ps xs" by (simp add: None)
    show ?thesis
    proof
      assume "\<exists>g t rest. x # xs = g @ t \<and> rmatch ps t = Some (caps, rest) \<and>
        (\<forall>u v. g = u @ v \<and> v \<noteq> [] \<longrightarrow> rmatch ps (v @ t) = None)"
      then obtain g t rest where e: "x # xs = g @ t" and m: "rmatch ps t = Some (caps, rest)"
        and lm: "\<forall>u v. g = u @ v \<and> v \<noteq> [] \<longrightarrow> rmatch ps (v @ t) = None" by blast
      from e m None obtain g' where g: "g = x # g'" by (cases g) auto
      with e have xs: "xs = g' @ t" by simp
      have "\<forall>u v. g' = u @ v \<and> v \<noteq> [] \<longrightarrow> rmatch ps (v @ t) = None"
      proof (intro allI impI)
        fix u v assume "g' = u @ v \<and> v \<noteq> []"
        then have "g = (x # u) @ v \<and> v \<noteq> []" by (simp add: g)
        with lm show "rmatch ps (v @ t) = None" by blast
      qed
      with xs m have "\<exists>g t rest. xs = g @ t \<and> rmatch ps t = Some (caps, rest) \<and>
        (\<forall>u v. g = u @ v \<and> v \<noteq> [] \<longrightarrow> rmatch ps (v @ t) = None)" by blast
      then have "firstMatch ps xs = Some caps" by (rule Cons.IH [THEN iffD2])
      then show "firstMatch ps (x # xs) = Some caps" by (simp only: l)
    next
      assume "firstMatch ps (x # xs) = Some caps"
      then have "firstMatch ps xs = Some caps" by (simp only: l)
      then have "\<exists>g t rest. xs = g @ t \<and> rmatch ps t = Some (caps, rest) \<and>
        (\<forall>u v. g = u @ v \<and> v \<noteq> [] \<longrightarrow> rmatch ps (v @ t) = None)" by (rule Cons.IH [THEN iffD1])
      then obtain g t rest where e: "xs = g @ t" and m: "rmatch ps t = Some (caps, rest)"
        and lm: "\<forall>u v. g = u @ v \<and> v \<noteq> [] \<longrightarrow> rmatch ps (v @ t) = None" by blast
      have "\<forall>u v. x # g = u @ v \<and> v \<noteq> [] \<longrightarrow> rmatch ps (v @ t) = None"
      proof (intro allI impI)
        fix u v assume a: "x # g = u @ v \<and> v \<noteq> []"
        show "rmatch ps (v @ t) = None"
        proof (cases u)
          case Nil
          with a have "v @ t = x # xs" by (simp add: e)
          with None show ?thesis by simp
        next
          case (Cons y u')
          with a have "g = u' @ v \<and> v \<noteq> []" by simp
          with lm show ?thesis by blast
        qed
      qed
      moreover have "x # xs = (x # g) @ t" by (simp add: e)
      ultimately show "\<exists>g t rest. x # xs = g @ t \<and> rmatch ps t = Some (caps, rest) \<and>
        (\<forall>u v. g = u @ v \<and> v \<noteq> [] \<longrightarrow> rmatch ps (v @ t) = None)" using m by blast
    qed
  qed
qed

lemma pmidOf_firstPmid: "pmidOf b = Some p \<longleftrightarrow> firstPmid b p"
proof
  assume a: "pmidOf b = Some p"
  then obtain caps where fm: "firstMatch pmidPattern b = Some caps" and c0: "caps \<noteq> []" and p: "caps ! 0 = p"
    by (auto simp: pmidOf_def capture_def split: option.splits if_splits)
  from fm [unfolded firstMatch_leftmost] obtain g t rest where e: "b = g @ t"
    and m: "rmatch pmidPattern t = Some (caps, rest)"
    and lm: "\<forall>u v. g = u @ v \<and> v \<noteq> [] \<longrightarrow> rmatch pmidPattern (v @ t) = None" by blast
  from m [unfolded rmatch_pmidPattern] obtain p' where "caps = [p']" by blast
  with p have caps: "caps = [p]" by simp
  with m have pa: "pmidAt t p" unfolding pmidAt_rmatch by blast
  from lm have "\<forall>u v. g = u @ v \<and> v \<noteq> [] \<longrightarrow> \<not> (\<exists>q. pmidAt (v @ t) q)"
    by (simp only: rmatch_pmidPattern_None)
  with e pa show "firstPmid b p" unfolding firstPmid_def by blast
next
  assume "firstPmid b p"
  then obtain g t where e: "b = g @ t" and pa: "pmidAt t p"
    and lm: "\<forall>u v. g = u @ v \<and> v \<noteq> [] \<longrightarrow> \<not> (\<exists>q. pmidAt (v @ t) q)"
    unfolding firstPmid_def by blast
  from pa obtain rest where m: "rmatch pmidPattern t = Some ([p], rest)" unfolding pmidAt_rmatch by blast
  from lm have "\<forall>u v. g = u @ v \<and> v \<noteq> [] \<longrightarrow> rmatch pmidPattern (v @ t) = None"
    by (simp only: rmatch_pmidPattern_None)
  with e m have "firstMatch pmidPattern b = Some [p]"
    unfolding firstMatch_leftmost by blast
  then show "pmidOf b = Some p" by (simp add: pmidOf_def capture_def)
qed

lemma validId_firstPmid: "validId b \<longleftrightarrow> (\<exists>p. firstPmid b p \<and> p \<noteq> [])"
proof (cases "pmidOf b")
  case None
  then have "\<not> (\<exists>p. firstPmid b p)" by (simp add: pmidOf_firstPmid [symmetric])
  with None show ?thesis by (auto simp: validId_def)
next
  case (Some q)
  then have "\<And>p. firstPmid b p \<longleftrightarrow> p = q" by (auto simp: pmidOf_firstPmid [symmetric])
  with Some show ?thesis by (simp add: validId_def)
qed

lemma list_all2_map_eq: "map f xs = map g ys \<Longrightarrow> list_all2 (\<lambda>x y. f x = g y) xs ys"
proof (induction xs arbitrary: ys)
  case Nil
  then show ?case by simp
next
  case (Cons x xs)
  then obtain y ys' where "ys = y # ys'" by (cases ys) auto
  with Cons show ?case by simp
qed

text \<open>
  Claim C8, as amended. For every markup string, the blocks that the extractor works on
  are the blocks of the input: from left to right, each one reaches from the next opening
  tag \<open><PubmedArticle>\<close> that a closing tag follows to the first closing tag
  \<open></PubmedArticle>\<close> after it, and the search goes on after the block; no other list
  is the list of blocks of the input. The identifier that the extractor reads in a block
  is the content of its first identifier element. The records returned are, in order,
  the parses of the blocks whose first identifier element has a non-empty content, one
  record for each, with this content as its identifier; the other blocks give no record.
  With no such block the result is the empty list; \<open>parseArticles\<close> is a total function
  and has no error result.
\<close>

theorem parseArticles_one_per_valid_block:
  "blocksOf xml (articleBlocks xml) \<and>
   (\<forall>bs. blocksOf xml bs \<longrightarrow> bs = articleBlocks xml) \<and>
   (\<forall>b p. firstPmid b p \<longleftrightarrow> pmidOf b = Some p) \<and>
   list_all2 (\<lambda>a b. firstPmid b (pmid a) \<and> pmid a \<noteq> [] \<and> parseBlock b = Some a)
     (parseArticles xml) (filter (\<lambda>b. \<exists>p. firstPmid b p \<and> p \<noteq> []) (articleBlocks xml)) \<and>
   ((\<forall>b \<in> set (articleBlocks xml). \<not> (\<exists>p. firstPmid b p \<and> p \<noteq> [])) \<longrightarrow> parseArticles xml = [])"
proof -
  let ?vs = "filter validId (articleBlocks xml)"
  have v: "(\<lambda>b. \<exists>p. firstPmid b p \<and> p \<noteq> []) = validId"
    by (rule ext) (simp only: validId_firstPmid)
  have 1: "blocksOf xml (articleBlocks xml)" by (rule blocksOf_articleBlocks)
  have 2: "\<forall>bs. blocksOf xml bs \<longrightarrow> bs = articleBlocks xml"
    using blocksOf_unique [of xml] by blast
  have 3: "\<forall>b p. firstPmid b p \<longleftrightarrow> pmidOf b = Some p"
    by (simp only: pmidOf_firstPmid) simp
  have "list_all2 (\<lambda>a b. Some a = parseBlock b) (parseArticles xml) ?vs"
    by (rule list_all2_map_eq [OF parseArticles_blocks])
  then have "list_all2 (\<lambda>a b. firstPmid b (pmid a) \<and> pmid a \<noteq> [] \<and> parseBlock b = Some a)
     (parseArticles xml) ?vs"
  proof (rule list_all2_mono)
    fix a b assume "Some a = parseBlock b"
    then have pb: "parseBlock b = Some a" by simp
    from parseBlock_pmid [OF pb] have "firstPmid b (pmid a)" and "pmid a \<noteq> []"
      by (simp_all add: pmidOf_firstPmid)
    with pb show "firstPmid b (pmid a) \<and> pmid a \<noteq> [] \<and> parseBlock b = Some a" by simp
  qed
  then have 4: "list_all2 (\<lambda>a b. firstPmid b (pmid a) \<and> pmid a \<noteq> [] \<and> parseBlock b = Some a)
     (parseArticles xml) (filter (\<lambda>b. \<exists>p. firstPmid b p \<and> p \<noteq> []) (articleBlocks xml))"
    by (simp only: v)
  have 5: "(\<forall>b \<in> set (articleBlocks xml). \<not> (\<exists>p. firstPmid b p \<and> p \<noteq> [])) \<longrightarrow> parseArticles xml = []"
  proof
    assume "\<forall>b \<in> set (articleBlocks xml). \<not> (\<exists>p. firstPmid b p \<and> p \<noteq> [])"
    then have "\<forall>b \<in> set (articleBlocks xml). \<not> validId b" by (simp only: validId_firstPmid)
    then have "?vs = []" by (simp add: filter_empty_conv)
    with parseArticles_blocks [of xml] show "parseArticles xml = []" by simp
  qed
  from 1 2 3 4 5 show ?thesis by (intro conjI)
qed







lemma ex_xml_blocks: "articleBlocks ex_xml = [''<PubmedArticle><PMID>1</PMID></PubmedArticle>''] @
   ''<PubmedArticle>no id</PubmedArticle>'' # [''<PubmedArticle><PMID>3</PMID></PubmedArticle>'']"
  by code_simp


text \<open>
  The amended claim on the example markup, whose second block has no identifier element,
  on a markup whose only block has none, and on the markup \<open>ex_two_ids\<close>, whose only
  block has an empty first identifier element.
\<close>

theorem parseArticles_one_per_valid_block_witness:
  "blocksOf ex_xml [''<PubmedArticle><PMID>1</PMID></PubmedArticle>'',
      ''<PubmedArticle>no id</PubmedArticle>'', ''<PubmedArticle><PMID>3</PMID></PubmedArticle>''] \<and>
   firstPmid ''<PubmedArticle><PMID>1</PMID></PubmedArticle>'' ''1'' \<and>
   \<not> (\<exists>p. firstPmid ''<PubmedArticle>no id</PubmedArticle>'' p) \<and>
   firstPmid ''<PubmedArticle><PMID>3</PMID></PubmedArticle>'' ''3'' \<and>
   map pmid (parseArticles ex_xml) = [''1'', ''3''] \<and>
   blocksOf ''<PubmedArticle>no id</PubmedArticle> x'' [''<PubmedArticle>no id</PubmedArticle>''] \<and>
   parseArticles ''<PubmedArticle>no id</PubmedArticle> x'' = [] \<and>
   blocksOf ex_two_ids [ex_two_ids] \<and> firstPmid ex_two_ids [] \<and> parseArticles ex_two_ids = []"
proof -
  let ?B1 = "''<PubmedArticle><PMID>1</PMID></PubmedArticle>''"
  let ?B2 = "''<PubmedArticle>no id</PubmedArticle>''"
  let ?B3 = "''<PubmedArticle><PMID>3</PMID></PubmedArticle>''"
  let ?X0 = "''<PubmedArticle>no id</PubmedArticle> x''"
  let ?P = "\<lambda>b. \<exists>p. firstPmid b p \<and> p \<noteq> []"
  let ?R = "\<lambda>a b. firstPmid b (pmid a) \<and> pmid a \<noteq> [] \<and> parseBlock b = Some a"
  note t = parseArticles_one_per_valid_block [of ex_xml]
  note t0 = parseArticles_one_per_valid_block [of ?X0]
  have bl: "articleBlocks ex_xml = [?B1, ?B2, ?B3]"
    using ex_xml_blocks by (simp only: append_Cons append_Nil)
  have bl0: "articleBlocks ?X0 = [?B2]" by code_simp
  have p1: "pmidOf ?B1 = Some ''1''" by code_simp
  have p2: "pmidOf ?B2 = None" by code_simp
  have p3: "pmidOf ?B3 = Some ''3''" by code_simp
  note fp = conjunct1 [OF conjunct2 [OF conjunct2 [OF t]]]
  note fpi = spec [OF spec [OF fp]]
  have w1: "blocksOf ex_xml [?B1, ?B2, ?B3]"
    using conjunct1 [OF t] by (simp only: bl)
  have f1: "firstPmid ?B1 ''1''" by (rule iffD2 [OF fpi p1])
  have f3: "firstPmid ?B3 ''3''" by (rule iffD2 [OF fpi p3])
  have f2: "\<not> (\<exists>p. firstPmid ?B2 p)"
  proof
    assume "\<exists>p. firstPmid ?B2 p"
    then obtain p where "firstPmid ?B2 p" ..
    then have "pmidOf ?B2 = Some p" by (rule iffD1 [OF fpi])
    then have "None = Some p" by (simp only: p2)
    then show False by (rule option.distinct(1) [THEN notE])
  qed
  have n1: "''1'' \<noteq> ([]::string)" by (rule list.distinct(2))
  have n3: "''3'' \<noteq> ([]::string)" by (rule list.distinct(2))
  have q1: "?P ?B1" by (rule exI [of _ "''1''"]) (rule conjI [OF f1 n1])
  have q3: "?P ?B3" by (rule exI [of _ "''3''"]) (rule conjI [OF f3 n3])
  have q2: "\<not> ?P ?B2"
  proof
    assume "?P ?B2"
    then obtain p where "firstPmid ?B2 p \<and> p \<noteq> []" ..
    then have "firstPmid ?B2 p" by (rule conjunct1)
    then have "\<exists>p. firstPmid ?B2 p" by (rule exI)
    with f2 show False by (rule notE)
  qed
  have fl: "filter ?P [?B1, ?B2, ?B3] = [?B1, ?B3]"
    by (simp only: filter.simps q1 q2 q3 if_True if_False)
  have "list_all2 ?R (parseArticles ex_xml) (filter ?P (articleBlocks ex_xml))"
    by (rule conjunct1 [OF conjunct2 [OF conjunct2 [OF conjunct2 [OF t]]]])
  then have la: "list_all2 ?R (parseArticles ex_xml) [?B1, ?B3]"
    by (simp only: bl fl)
  have "\<exists>z zs. parseArticles ex_xml = z # zs \<and>
      (firstPmid ?B1 (pmid z) \<and> pmid z \<noteq> [] \<and> parseBlock ?B1 = Some z) \<and> list_all2 ?R zs [?B3]"
    by (rule list_all2_Cons2 [THEN iffD1, OF la])
  then obtain a1 where "\<exists>zs. parseArticles ex_xml = a1 # zs \<and>
      (firstPmid ?B1 (pmid a1) \<and> pmid a1 \<noteq> [] \<and> parseBlock ?B1 = Some a1) \<and> list_all2 ?R zs [?B3]" ..
  then obtain as1 where c1: "parseArticles ex_xml = a1 # as1 \<and>
      (firstPmid ?B1 (pmid a1) \<and> pmid a1 \<noteq> [] \<and> parseBlock ?B1 = Some a1) \<and> list_all2 ?R as1 [?B3]" ..
  note la3 = conjunct2 [OF conjunct2 [OF c1]]
  have "\<exists>z zs. as1 = z # zs \<and>
      (firstPmid ?B3 (pmid z) \<and> pmid z \<noteq> [] \<and> parseBlock ?B3 = Some z) \<and> list_all2 ?R zs []"
    by (rule list_all2_Cons2 [THEN iffD1, OF la3])
  then obtain a3 where "\<exists>zs. as1 = a3 # zs \<and>
      (firstPmid ?B3 (pmid a3) \<and> pmid a3 \<noteq> [] \<and> parseBlock ?B3 = Some a3) \<and> list_all2 ?R zs []" ..
  then obtain as3 where c3: "as1 = a3 # as3 \<and>
      (firstPmid ?B3 (pmid a3) \<and> pmid a3 \<noteq> [] \<and> parseBlock ?B3 = Some a3) \<and> list_all2 ?R as3 []" ..
  have e3: "as3 = []"
    by (rule list_all2_Nil2 [THEN iffD1, OF conjunct2 [OF conjunct2 [OF c3]]])
  have pa: "parseArticles ex_xml = [a1, a3]"
    by (simp only: conjunct1 [OF c1] conjunct1 [OF c3] e3)
  have "pmidOf ?B1 = Some (pmid a1)"
    by (rule iffD1 [OF fpi conjunct1 [OF conjunct1 [OF conjunct2 [OF c1]]]])
  then have "Some ''1'' = Some (pmid a1)" by (simp only: p1)
  then have i1: "pmid a1 = ''1''" by (simp only: option.inject)
  have "pmidOf ?B3 = Some (pmid a3)"
    by (rule iffD1 [OF fpi conjunct1 [OF conjunct1 [OF conjunct2 [OF c3]]]])
  then have "Some ''3'' = Some (pmid a3)" by (simp only: p3)
  then have i3: "pmid a3 = ''3''" by (simp only: option.inject)
  have w5: "map pmid (parseArticles ex_xml) = [''1'', ''3'']"
    by (simp only: pa list.map i1 i3)
  have w6: "blocksOf ?X0 [?B2]"
    using conjunct1 [OF t0] by (simp only: bl0)
  have "\<forall>b \<in> set [?B2]. \<not> ?P b"
    by (simp only: list.set ball_simps q2 simp_thms)
  then have "\<forall>b \<in> set (articleBlocks ?X0). \<not> ?P b"
    by (simp only: bl0)
  then have w7: "parseArticles ?X0 = []"
    by (rule conjunct2 [OF conjunct2 [OF conjunct2 [OF conjunct2 [OF t0]]], THEN mp])
  note t2 = parseArticles_one_per_valid_block [of ex_two_ids]
  note fpi2 = spec [OF spec [OF conjunct1 [OF conjunct2 [OF conjunct2 [OF t2]]]]]
  have bl2: "articleBlocks ex_two_ids = [ex_two_ids]" by code_simp
  have p4: "pmidOf ex_two_ids = Some []" by code_simp
  have w8: "blocksOf ex_two_ids [ex_two_ids]"
    using conjunct1 [OF t2] by (simp only: bl2)
  have w9: "firstPmid ex_two_ids []" by (rule iffD2 [OF fpi2 p4])
  have q4: "\<not> ?P ex_two_ids"
  proof
    assume "?P ex_two_ids"
    then obtain p where c: "firstPmid ex_two_ids p \<and> p \<noteq> []" ..
    have "pmidOf ex_two_ids = Some p" by (rule iffD1 [OF fpi2 conjunct1 [OF c]])
    then have "Some [] = Some p" by (simp only: p4)
    then have "[] = p" by (simp only: option.inject)
    then have "p = []" by (rule sym)
    with conjunct2 [OF c] show False by (rule notE)
  qed
  have "\<forall>b \<in> set [ex_two_ids]. \<not> ?P b"
    by (simp only: list.set ball_simps q4 simp_thms)
  then have "\<forall>b \<in> set (articleBlocks ex_two_ids). \<not> ?P b"
    by (simp only: bl2)
  then have w10: "parseArticles ex_two_ids = []"
    by (rule conjunct2 [OF conjunct2 [OF conjunct2 [OF conjunct2 [OF t2]]], THEN mp])
  show ?thesis
    by (rule conjI [OF w1 conjI [OF f1 conjI [OF f2 conjI [OF f3 conjI [OF w5 conjI [OF w6
          conjI [OF w7 conjI [OF w8 conjI [OF w9 w10]]]]]]]]])
qed

text \<open>
  Claim C8 as stated fails. The only block of \<open>ex_two_ids\<close> holds the identifier
  element \<open><PMID>9</PMID>\<close>, whose content is not empty, but its first identifier
  element is empty: no record is returned. The only block of \<open>ex_multiline\<close> holds an
  identifier element whose content, a line feed and \<open>5\<close>, is not empty, but the pattern
  of the extractor does not match a content with a line terminator: no record is returned.
\<close>

theorem parseArticles_one_per_valid_block_counterexample:
  "ex_two_ids = ''<PubmedArticle><PMID></PMID>'' @ ''<PMID>9</PMID>'' @ ''</PubmedArticle>'' \<and>
   pmidOf ''<PMID>9</PMID>'' = Some ''9'' \<and>
   articleBlocks ex_two_ids = [ex_two_ids] \<and>
   parseArticles ex_two_ids = [] \<and>
   articleBlocks ex_multiline = [ex_multiline] \<and>
   parseArticles ex_multiline = []"
  by code_simp

section \<open>Tier 2: records without a DOI\<close>

lemma split_no_sep: "sep \<notin> set s \<Longrightarrow> split sep s = [s]"
  by (induction s) auto

lemma split_append_sep: "sep \<notin> set s \<Longrightarrow> split sep (s @ sep # rest) = s # split sep rest"
  by (induction s) auto

lemma append_sep_inject:
  "sep \<notin> set a \<Longrightarrow> sep \<notin> set a' \<Longrightarrow> a @ sep # r = a' @ sep # r' \<Longrightarrow> a = a' \<and> r = r'"
proof (induction a arbitrary: a')
  case Nil
  then show ?case by (cases a') auto
next
  case (Cons x a)
  then show ?case by (cases a') auto
qed

lemma bar_notin_firstAuthorOf: "CHR ''|'' \<notin> set (firstAuthorOf a)"
  by (simp add: firstAuthorOf_def bar_notin_normalizeString split: list.splits)

lemma compositeKeyOf_eq: "compositeKeyOf a = titleOf a @ CHR ''|'' # firstAuthorOf a @ CHR ''|'' # yearOf a"
  by (simp add: compositeKeyOf_def titleOf_def)

lemma compositeKeyOf_inject:
  assumes "compositeKeyOf a = compositeKeyOf b"
  shows "titleOf a = titleOf b \<and> firstAuthorOf a = firstAuthorOf b \<and> yearOf a = yearOf b"
proof -
  from assms have e: "titleOf a @ CHR ''|'' # (firstAuthorOf a @ CHR ''|'' # yearOf a)
      = titleOf b @ CHR ''|'' # (firstAuthorOf b @ CHR ''|'' # yearOf b)"
    by (simp add: compositeKeyOf_eq)
  have t: "CHR ''|'' \<notin> set (titleOf a)" "CHR ''|'' \<notin> set (titleOf b)"
    by (simp_all add: titleOf_def bar_notin_normalizeString)
  from append_sep_inject [OF t e]
  have 1: "titleOf a = titleOf b"
    and 2: "firstAuthorOf a @ CHR ''|'' # yearOf a = firstAuthorOf b @ CHR ''|'' # yearOf b"
    by simp_all
  from append_sep_inject [OF bar_notin_firstAuthorOf bar_notin_firstAuthorOf 2] 1
  show ?thesis by simp
qed

lemma compositeKeyOf_bar: "CHR ''|'' \<in> set (compositeKeyOf a)"
  by (simp add: compositeKeyOf_eq)

lemma split_compositeKeyOf:
  "CHR ''|'' \<notin> set (yearOf a) \<Longrightarrow>
   split (CHR ''|'') (compositeKeyOf a) = [titleOf a, firstAuthorOf a, yearOf a]"
  by (simp add: compositeKeyOf_eq split_append_sep split_no_sep bar_notin_firstAuthorOf
      titleOf_def bar_notin_normalizeString)

lemma calculateSimilarity_refl: "calculateSimilarity s s = 1"
proof -
  have "levenshteinDistance s s = 0"
    by (simp add: levenshteinDistance_lev lev_zero_iff)
  then show ?thesis
    by (simp add: calculateSimilarity_def)
qed

lemma wellKeyed_doi: "wellKeyed um \<Longrightarrow> e \<in> set um \<Longrightarrow> usableDoi (snd e) = Some d \<Longrightarrow> CHR ''|'' \<notin> set (fst e)"
  by (auto simp: wellKeyed_def barFree_def keyOf_def)

lemma wellKeyed_nodoi:
  "wellKeyed um \<Longrightarrow> e \<in> set um \<Longrightarrow> usableDoi (snd e) = None \<Longrightarrow>
   fst e = compositeKeyOf (snd e) \<and>
   split (CHR ''|'') (fst e) = [titleOf (snd e), firstAuthorOf (snd e), yearOf (snd e)]"
  by (auto simp: wellKeyed_def barFree_def keyOf_def split_compositeKeyOf)

lemma wellKeyed_Cons: "wellKeyed (e # um) \<Longrightarrow> wellKeyed um"
  by (simp add: wellKeyed_def)

lemma isDuplicate_wellKeyed:
  "wellKeyed um \<Longrightarrow>
   isDuplicate t fa y um =
     (\<exists>e \<in> set um. inGroup fa y (snd e) \<and> calculateSimilarity t (titleOf (snd e)) > 0.85)"
proof (induction um)
  case Nil
  show ?case by simp
next
  case (Cons e um)
  obtain k v where e: "e = (k, v)" by (cases e)
  have IH: "isDuplicate t fa y um =
     (\<exists>e \<in> set um. inGroup fa y (snd e) \<and> calculateSimilarity t (titleOf (snd e)) > 0.85)"
    using Cons.IH wellKeyed_Cons [OF Cons.prems] by simp
  show ?case
  proof (cases "usableDoi v")
    case (Some d)
    have "CHR ''|'' \<notin> set k"
      using wellKeyed_doi [OF Cons.prems, of e d] Some by (simp add: e)
    moreover have "\<not> inGroup fa y v"
      using Some by (simp add: inGroup_def)
    ultimately show ?thesis
      by (simp add: e IH)
  next
    case None
    have k: "k = compositeKeyOf v" and sp: "split (CHR ''|'') k = [titleOf v, firstAuthorOf v, yearOf v]"
      using wellKeyed_nodoi [OF Cons.prems, of e] None unfolding e by auto
    have bar: "CHR ''|'' \<in> set k"
      by (simp add: k compositeKeyOf_bar)
    show ?thesis
      using None by (auto simp: e bar sp IH inGroup_def)
  qed
qed

lemma map_has_wellKeyed:
  assumes wk: "wellKeyed um" and c: "inGroup fa y c"
  shows "map_has um (compositeKeyOf c) =
         (\<exists>e \<in> set um. inGroup fa y (snd e) \<and> titleOf (snd e) = titleOf c)"
proof
  assume "map_has um (compositeKeyOf c)"
  then obtain e where e: "e \<in> set um" and k: "fst e = compositeKeyOf c"
    by (auto simp: map_has_def)
  have nd: "usableDoi (snd e) = None"
  proof (cases "usableDoi (snd e)")
    case (Some d)
    from wellKeyed_doi [OF wk e Some] k show ?thesis
      by (simp add: compositeKeyOf_bar)
  qed simp
  from wellKeyed_nodoi [OF wk e nd] k have "compositeKeyOf (snd e) = compositeKeyOf c" by simp
  from compositeKeyOf_inject [OF this] nd c e
  show "\<exists>e \<in> set um. inGroup fa y (snd e) \<and> titleOf (snd e) = titleOf c"
    by (auto simp: inGroup_def)
next
  assume "\<exists>e \<in> set um. inGroup fa y (snd e) \<and> titleOf (snd e) = titleOf c"
  then obtain e where e: "e \<in> set um" and g: "inGroup fa y (snd e)" and t: "titleOf (snd e) = titleOf c"
    by blast
  from g have nd: "usableDoi (snd e) = None" by (simp add: inGroup_def)
  from wellKeyed_nodoi [OF wk e nd] have "fst e = compositeKeyOf (snd e)" by simp
  also have "\<dots> = compositeKeyOf c"
    using g c t by (simp add: compositeKeyOf_eq inGroup_def)
  finally have "fst e = compositeKeyOf c" .
  moreover have "fst e \<in> fst ` set um"
    using e by (rule imageI)
  ultimately show "map_has um (compositeKeyOf c)"
    by (simp add: map_has_def)
qed

lemma group_step:
  assumes wk: "wellKeyed um" and c: "inGroup fa y c"
  shows "dedupStep (um, dm) c =
         (if list_ex (similar c) (filter (inGroup fa y) (map snd um)) then (um, dm)
          else (um @ [(compositeKeyOf c, c)], dm))"
proof -
  from c have nd: "usableDoi c = None" and fa: "firstAuthorOf c = fa" and y: "yearOf c = y"
    by (simp_all add: inGroup_def)
  have dup: "isDuplicate (normalizeString (title c)) (firstAuthorOf c) (yearOf c) um =
        list_ex (similar c) (filter (inGroup fa y) (map snd um))"
    using isDuplicate_wellKeyed [OF wk, of "titleOf c" fa y]
    by (auto simp: fa y titleOf_def similar_def list_ex_iff)
  show ?thesis
  proof (cases "list_ex (similar c) (filter (inGroup fa y) (map snd um))")
    case True
    with dup dedupStep_fuzzy_skip [OF nd, of um dm] show ?thesis by simp
  next
    case False
    have "\<not> map_has um (compositeKeyOf c)"
    proof
      assume "map_has um (compositeKeyOf c)"
      with map_has_wellKeyed [OF wk c] obtain e where
        e: "e \<in> set um" "inGroup fa y (snd e)" "titleOf (snd e) = titleOf c" by blast
      then have "similar c (snd e)"
        by (simp add: similar_def calculateSimilarity_refl)
      with e False show False
        by (auto simp: list_ex_iff)
    qed
    with False dup dedupStep_accept [OF nd, of um dm] show ?thesis by simp
  qed
qed

lemma set_map_set: "set (map_set m k v) \<subseteq> insert (k, v) (set m)"
  by (induction m) (auto split: if_splits)

lemma wellKeyed_step:
  assumes wk: "wellKeyed um" and bf: "barFree c"
  shows "wellKeyed (fst (dedupStep (um, dm) c))"
proof (rule dedupStep_cases [of um dm c])
  assume "dedupStep (um, dm) c = (um, dm)"
  with wk show ?thesis by simp
next
  fix d
  assume u: "usableDoi c = Some d"
    and eq: "dedupStep (um, dm) c = (map_set um (pmid c) c, map_set dm (normalizeString d) True)"
  show ?thesis
    using wk bf set_map_set [of um "pmid c" c]
    by (auto simp: eq wellKeyed_def keyOf_Some [OF u])
next
  assume u: "usableDoi c = None" and eq: "dedupStep (um, dm) c = (um @ [(compositeKeyOf c, c)], dm)"
  show ?thesis
    using wk bf by (auto simp: eq wellKeyed_def keyOf_None [OF u])
qed

lemma other_step:
  assumes wk: "wellKeyed um" and bf: "barFree c" and ng: "\<not> inGroup fa y c"
  shows "filter (inGroup fa y) (map snd (fst (dedupStep (um, dm) c))) = filter (inGroup fa y) (map snd um)"
proof (rule dedupStep_cases [of um dm c])
  assume "dedupStep (um, dm) c = (um, dm)"
  then show ?thesis by simp
next
  assume "dedupStep (um, dm) c = (um @ [(compositeKeyOf c, c)], dm)"
  with ng show ?thesis by simp
next
  fix d
  assume u: "usableDoi c = Some d"
    and eq: "dedupStep (um, dm) c = (map_set um (pmid c) c, map_set dm (normalizeString d) True)"
  show ?thesis
  proof (cases "pmid c \<in> set (map fst um)")
    case False
    from map_set_append [OF False, of c] ng show ?thesis
      by (simp add: eq)
  next
    case True
    from map_set_replace [OF True, of c] obtain m1 v0 m2 where
      um: "um = m1 @ (pmid c, v0) # m2" and ms: "map_set um (pmid c) c = m1 @ (pmid c, c) # m2"
      by blast
    have "\<not> inGroup fa y v0"
    proof
      assume "inGroup fa y v0"
      then have nd: "usableDoi v0 = None" by (simp add: inGroup_def)
      have "(pmid c, v0) \<in> set um" by (simp add: um)
      from wellKeyed_nodoi [OF wk this] nd have "pmid c = compositeKeyOf v0" by simp
      moreover from bf u have "CHR ''|'' \<notin> set (pmid c)" by (simp add: barFree_def)
      ultimately show False using compositeKeyOf_bar [of v0] by simp
    qed
    moreover have "map snd (map_set um (pmid c) c) = map snd m1 @ c # map snd m2"
      by (simp add: ms)
    moreover have "map snd um = map snd m1 @ v0 # map snd m2"
      by (simp add: um)
    ultimately show ?thesis
      using ng by (simp add: eq)
  qed
qed

lemma greedy_fold:
  "wellKeyed (fst st) \<Longrightarrow> list_all barFree xs \<Longrightarrow>
   filter (inGroup fa y) (map snd (fst (foldl dedupStep st xs))) =
   greedy (filter (inGroup fa y) (map snd (fst st))) (filter (inGroup fa y) xs)"
proof (induction xs arbitrary: st)
  case Nil
  show ?case by simp
next
  case (Cons c xs)
  obtain um dm where st: "st = (um, dm)" by (cases st)
  from Cons.prems have wk: "wellKeyed um" and bf: "barFree c" and rest: "list_all barFree xs"
    by (simp_all add: st)
  have wk': "wellKeyed (fst (dedupStep st c))"
    using wellKeyed_step [OF wk bf] by (simp add: st)
  note IH = Cons.IH [OF wk' rest]
  show ?case
  proof (cases "inGroup fa y c")
    case True
    from group_step [OF wk True, of dm] True IH show ?thesis
      by (simp add: st)
  next
    case False
    from other_step [OF wk bf False, of dm] False IH show ?thesis
      by (simp add: st)
  qed
qed

lemma greedy_output:
  assumes "list_all barFree xs"
  shows "filter (inGroup fa y) (deduplicateArticles xs) = greedy [] (filter (inGroup fa y) xs)"
  using greedy_fold [of "([], [])" xs fa y] assms
  by (simp add: deduplicateArticles_def map_values_def wellKeyed_def)

lemma greedy_append: "greedy acc (xs @ ys) = greedy (greedy acc xs) ys"
  by (induction xs arbitrary: acc) simp_all

lemma greedy_extends: "\<exists>r. greedy acc xs = acc @ r"
proof (induction xs arbitrary: acc)
  case Nil
  show ?case by simp
next
  case (Cons c xs)
  show ?case
  proof (cases "list_ex (similar c) acc")
    case True
    with Cons.IH [of acc] show ?thesis by simp
  next
    case False
    from Cons.IH [of "acc @ [c]"] obtain r where "greedy (acc @ [c]) xs = (acc @ [c]) @ r" by blast
    with False have "greedy acc (c # xs) = acc @ (c # r)" by simp
    then show ?thesis by blast
  qed
qed

lemma wellKeyed_foldl:
  "wellKeyed (fst st) \<Longrightarrow> list_all barFree xs \<Longrightarrow> wellKeyed (fst (foldl dedupStep st xs))"
proof (induction xs arbitrary: st)
  case Nil
  then show ?case by simp
next
  case (Cons c xs)
  obtain um dm where st: "st = (um, dm)" by (cases st)
  from Cons.prems have "wellKeyed (fst (dedupStep st c))"
    using wellKeyed_step [of um c dm] by (simp add: st)
  with Cons show ?case by simp
qed

lemma similar_dropped:
  assumes bf: "list_all barFree p" and gb: "inGroup fa y b"
    and sim: "list_ex (similar b) (filter (inGroup fa y) (deduplicateArticles p))"
  shows "dedupStep (foldl dedupStep ([], []) p) b = foldl dedupStep ([], []) p"
proof -
  obtain um dm where st: "foldl dedupStep ([], []) p = (um, dm)"
    by (cases "foldl dedupStep ([], []) p")
  have wk: "wellKeyed um"
    using wellKeyed_foldl [of "([], [])" p] bf by (simp add: st wellKeyed_def)
  have "filter (inGroup fa y) (map snd um) = filter (inGroup fa y) (deduplicateArticles p)"
    by (simp add: deduplicateArticles_def map_values_def st)
  with sim group_step [OF wk gb, of dm] show ?thesis
    by (simp add: st)
qed

lemma deduplicate_skip:
  assumes "dedupStep (foldl dedupStep ([], []) p) b = foldl dedupStep ([], []) p"
  shows "deduplicateArticles (p @ b # q) = deduplicateArticles (p @ q)"
  using assms by (simp add: deduplicateArticles_def)

text \<open>
  Claim C1, as amended. Let no DOI-bearing record of the input have a \<open>|\<close> in its PMID
  and no DOI-less record have one in its year. Let \<open>a\<close> and, later in the input, \<open>b\<close>
  be records without a usable DOI that have the same normalized first author and the
  same year, and let \<open>a\<close> be accepted when it is seen: it resembles none of the records
  of that group accepted before it. If the similarity of the normalized titles of \<open>b\<close>
  and \<open>a\<close> is greater than 0.85, then \<open>a\<close> is in the output and \<open>b\<close> is dropped: the
  output is the one of the input without \<open>b\<close>. If it is at most 0.85 and \<open>b\<close>
  resembles no other record of the group accepted before it either, then both are in
  the output, \<open>a\<close> before \<open>b\<close>.
\<close>

theorem fuzzy_pair:
  assumes bf: "list_all barFree (pre @ a # mid @ b # post)"
    and ga: "inGroup fa y a" and gb: "inGroup fa y b"
    and acc: "\<not> list_ex (similar a) (filter (inGroup fa y) (deduplicateArticles pre))"
  shows "(similar b a \<longrightarrow>
            a \<in> set (deduplicateArticles (pre @ a # mid @ b # post)) \<and>
            deduplicateArticles (pre @ a # mid @ b # post) = deduplicateArticles (pre @ a # mid @ post)) \<and>
         (\<not> similar b a \<and>
            (\<forall>g \<in> set (filter (inGroup fa y) (deduplicateArticles (pre @ a # mid))). g \<noteq> a \<longrightarrow> \<not> similar b g) \<longrightarrow>
            (\<exists>u v w. filter (inGroup fa y) (deduplicateArticles (pre @ a # mid @ b # post)) = u @ a # v @ b # w))"
proof -
  let ?G = "inGroup fa y"
  let ?A0 = "filter ?G (deduplicateArticles pre)"
  let ?A1 = "filter ?G (deduplicateArticles (pre @ a # mid))"
  from bf have bf0: "list_all barFree pre" and bf1: "list_all barFree (pre @ a # mid)"
    by simp_all
  have A0: "?A0 = greedy [] (filter ?G pre)"
    by (rule greedy_output [OF bf0])
  have "?A1 = greedy [] (filter ?G pre @ a # filter ?G mid)"
    using greedy_output [OF bf1, of fa y] ga by simp
  also have "\<dots> = greedy (greedy ?A0 [a]) (filter ?G mid)"
    by (simp only: greedy_append A0) (simp add: greedy_append)
  also have "greedy ?A0 [a] = ?A0 @ [a]"
    using acc by simp
  finally have A1: "?A1 = greedy (?A0 @ [a]) (filter ?G mid)" .
  from greedy_extends [of "?A0 @ [a]" "filter ?G mid"] obtain r1
    where r1: "?A1 = ?A0 @ a # r1" by (auto simp: A1)
  have full: "filter ?G (deduplicateArticles (pre @ a # mid @ b # post)) =
      greedy (greedy ?A1 [b]) (filter ?G post)"
  proof -
    have "filter ?G (deduplicateArticles (pre @ a # mid @ b # post)) =
        greedy [] ((filter ?G pre @ a # filter ?G mid) @ b # filter ?G post)"
      using greedy_output [OF bf, of fa y] ga gb by simp
    also have "\<dots> = greedy (greedy (greedy [] (filter ?G pre @ a # filter ?G mid)) [b]) (filter ?G post)"
      by (simp only: greedy_append) (simp add: greedy_append)
    also have "greedy [] (filter ?G pre @ a # filter ?G mid) = ?A1"
      using greedy_output [OF bf1, of fa y] ga by simp
    finally show ?thesis .
  qed
  show ?thesis
  proof (intro conjI impI)
    assume sim: "similar b a"
    have "list_ex (similar b) ?A1"
      using sim by (auto simp: r1 list_ex_iff)
    from similar_dropped [OF bf1 gb this]
    have "deduplicateArticles ((pre @ a # mid) @ b # post) = deduplicateArticles ((pre @ a # mid) @ post)"
      by (rule deduplicate_skip)
    then show "deduplicateArticles (pre @ a # mid @ b # post) = deduplicateArticles (pre @ a # mid @ post)"
      by simp
    from \<open>list_ex (similar b) ?A1\<close> have "greedy ?A1 [b] = ?A1" by simp
    with full greedy_extends [of ?A1 "filter ?G post"] obtain r2 where
      "filter ?G (deduplicateArticles (pre @ a # mid @ b # post)) = ?A1 @ r2" by auto
    then have "a \<in> set (filter ?G (deduplicateArticles (pre @ a # mid @ b # post)))"
      by (simp add: r1)
    then show "a \<in> set (deduplicateArticles (pre @ a # mid @ b # post))"
      by simp
  next
    assume h: "\<not> similar b a \<and> (\<forall>g \<in> set ?A1. g \<noteq> a \<longrightarrow> \<not> similar b g)"
    then have "\<not> list_ex (similar b) ?A1"
      by (auto simp: list_ex_iff)
    then have "greedy ?A1 [b] = ?A1 @ [b]" by simp
    with full greedy_extends [of "?A1 @ [b]" "filter ?G post"] obtain r2 where
      "filter ?G (deduplicateArticles (pre @ a # mid @ b # post)) = (?A1 @ [b]) @ r2" by auto
    then have "filter ?G (deduplicateArticles (pre @ a # mid @ b # post)) = ?A0 @ a # r1 @ b # r2"
      by (simp add: r1)
    then show "\<exists>u v w. filter ?G (deduplicateArticles (pre @ a # mid @ b # post)) = u @ a # v @ b # w"
      by blast
  qed
qed

text \<open>
  The amended claim on a similar pair that a third record of the group follows, and on
  the last two of three records of the group that are dissimilar two by two, each
  beside a DOI-bearing record.
\<close>

theorem fuzzy_pair_witness:
  "list_all barFree ([ex_doiA] @ ex_z # [] @ ex_a # [ex_b]) \<and>
   inGroup ''jo smith'' ''2020'' ex_z \<and> inGroup ''jo smith'' ''2020'' ex_a \<and>
   \<not> list_ex (similar ex_z) (filter (inGroup ''jo smith'' ''2020'') (deduplicateArticles [ex_doiA])) \<and>
   similar ex_a ex_z \<and>
   ex_z \<in> set (deduplicateArticles ([ex_doiA] @ ex_z # [] @ ex_a # [ex_b])) \<and>
   deduplicateArticles ([ex_doiA] @ ex_z # [] @ ex_a # [ex_b]) =
     deduplicateArticles ([ex_doiA] @ ex_z # [] @ [ex_b]) \<and>
   list_all barFree ([ex_z] @ ex_b # [ex_doiA] @ ex_w # []) \<and>
   inGroup ''jo smith'' ''2020'' ex_b \<and> inGroup ''jo smith'' ''2020'' ex_w \<and>
   \<not> list_ex (similar ex_b) (filter (inGroup ''jo smith'' ''2020'') (deduplicateArticles [ex_z])) \<and>
   \<not> similar ex_w ex_b \<and>
   filter (inGroup ''jo smith'' ''2020'') (deduplicateArticles ([ex_z] @ ex_b # [ex_doiA])) = [ex_z, ex_b] \<and>
   \<not> similar ex_w ex_z \<and>
   (\<exists>u v w. filter (inGroup ''jo smith'' ''2020'')
        (deduplicateArticles ([ex_z] @ ex_b # [ex_doiA] @ ex_w # [])) = u @ ex_b # v @ ex_w # w)"
proof -
  let ?G = "inGroup ''jo smith'' ''2020''"
  have h1: "list_all barFree ([ex_doiA] @ ex_z # [] @ ex_a # [ex_b])" by code_simp
  have gz: "?G ex_z" by code_simp
  have ga: "?G ex_a" by code_simp
  have a1: "\<not> list_ex (similar ex_z) (filter ?G (deduplicateArticles [ex_doiA]))" by code_simp
  have s1: "similar ex_a ex_z" by code_simp
  have h2: "list_all barFree ([ex_z] @ ex_b # [ex_doiA] @ ex_w # [])" by code_simp
  have gb: "?G ex_b" by code_simp
  have gw: "?G ex_w" by code_simp
  have a2: "\<not> list_ex (similar ex_b) (filter ?G (deduplicateArticles [ex_z]))" by code_simp
  have s2: "\<not> similar ex_w ex_b" by code_simp
  have e2: "filter ?G (deduplicateArticles ([ex_z] @ ex_b # [ex_doiA])) = [ex_z, ex_b]" by code_simp
  have s3: "\<not> similar ex_w ex_z" by code_simp
  have o2: "\<forall>g \<in> set (filter ?G (deduplicateArticles ([ex_z] @ ex_b # [ex_doiA]))). g \<noteq> ex_b \<longrightarrow> \<not> similar ex_w g"
    unfolding e2 using s3 by simp
  note t1 = fuzzy_pair [OF h1 gz ga a1]
  note t2 = fuzzy_pair [OF h2 gb gw a2]
  have c1: "ex_z \<in> set (deduplicateArticles ([ex_doiA] @ ex_z # [] @ ex_a # [ex_b])) \<and>
      deduplicateArticles ([ex_doiA] @ ex_z # [] @ ex_a # [ex_b]) =
      deduplicateArticles ([ex_doiA] @ ex_z # [] @ [ex_b])"
    by (rule conjunct1 [OF t1, THEN mp, OF s1])
  have c2: "\<exists>u v w. filter ?G (deduplicateArticles ([ex_z] @ ex_b # [ex_doiA] @ ex_w # [])) =
      u @ ex_b # v @ ex_w # w"
    by (rule conjunct2 [OF t2, THEN mp, OF conjI [OF s2 o2]])
  show ?thesis
    by (rule conjI [OF h1 conjI [OF gz conjI [OF ga conjI [OF a1 conjI [OF s1
          conjI [OF conjunct1 [OF c1] conjI [OF conjunct2 [OF c1] conjI [OF h2 conjI [OF gb
          conjI [OF gw conjI [OF a2 conjI [OF s2 conjI [OF e2 conjI [OF s3 c2]]]]]]]]]]]]]])
qed

text \<open>
  Claim C1 as stated fails. The records \<open>ex_a\<close> and \<open>ex_b\<close> have no DOI, the same author
  and year and title similarity 0.9, but \<open>ex_a\<close> was dropped as a duplicate of \<open>ex_z\<close>, which
  \<open>ex_b\<close> does not resemble (0.8): the later record \<open>ex_b\<close> is kept. The records \<open>ex_a\<close>
  and \<open>ex_c\<close> have similarity 0.8 and different keys, and both are dropped as duplicates
  of \<open>ex_z\<close>. The records \<open>ex_z\<close> and \<open>ex_d\<close> have similarity 0.7 and different keys, and
  \<open>ex_z\<close> is accepted, but \<open>ex_d\<close> is dropped as a duplicate of \<open>ex_b\<close>. The records
  \<open>ex_y1\<close> and \<open>ex_y2\<close> have similarity 13/14 and a year with a \<open>|\<close>, which the split
  of the stored key cuts in two: both are kept. The PMID of the DOI-bearing record
  \<open>ex_doiBar\<close> reads as the composite key of a record that \<open>ex_a\<close> and \<open>ex_c\<close> resemble:
  both are dropped, although no DOI-less record was accepted before them.
\<close>

theorem fuzzy_pair_counterexample:
  "usableDoi ex_z = None \<and> usableDoi ex_a = None \<and> usableDoi ex_b = None \<and>
   usableDoi ex_c = None \<and> usableDoi ex_d = None \<and>
   firstAuthorOf ex_a = firstAuthorOf ex_b \<and> yearOf ex_a = yearOf ex_b \<and>
   firstAuthorOf ex_a = firstAuthorOf ex_c \<and> yearOf ex_a = yearOf ex_c \<and>
   firstAuthorOf ex_z = firstAuthorOf ex_d \<and> yearOf ex_z = yearOf ex_d \<and>
   calculateSimilarity (normalizeString (title ex_a)) (normalizeString (title ex_b)) = 9 / 10 \<and>
   deduplicateArticles [ex_z, ex_a, ex_b] = [ex_z, ex_b] \<and>
   calculateSimilarity (normalizeString (title ex_a)) (normalizeString (title ex_c)) = 8 / 10 \<and>
   compositeKeyOf ex_a \<noteq> compositeKeyOf ex_c \<and>
   deduplicateArticles [ex_z, ex_a, ex_c] = [ex_z] \<and>
   calculateSimilarity (normalizeString (title ex_z)) (normalizeString (title ex_d)) = 7 / 10 \<and>
   compositeKeyOf ex_z \<noteq> compositeKeyOf ex_d \<and>
   deduplicateArticles [ex_z, ex_b, ex_d] = [ex_z, ex_b] \<and>
   usableDoi ex_y1 = None \<and> usableDoi ex_y2 = None \<and>
   firstAuthorOf ex_y1 = firstAuthorOf ex_y2 \<and> yearOf ex_y1 = yearOf ex_y2 \<and>
   calculateSimilarity (normalizeString (title ex_y1)) (normalizeString (title ex_y2)) = 13 / 14 \<and>
   deduplicateArticles [ex_y1, ex_y2] = [ex_y1, ex_y2] \<and>
   usableDoi ex_doiBar = Some ''10.9/z'' \<and>
   deduplicateArticles [ex_doiBar, ex_a, ex_c] = [ex_doiBar]"
  by code_simp

section \<open>The example of four records\<close>





end
